theory Spec2Isabelle
  imports Main "HOL-Library.Word" "HOL-Library.Multiset"
begin

section \<open>Data model\<close>

text \<open>
  Payloads are \<^verbatim>\<open>Uint8Array\<close>s: lists of 8-bit words.  Node addresses are the
  strings handed to \<^verbatim>\<open>readContract\<close>.  Every object that carries an
  \<^verbatim>\<open>index\<close> field shares it: a chunk is \<^verbatim>\<open>{index, data}\<close>, a leaf or retry item
  is \<^verbatim>\<open>{index, address}\<close>.
\<close>

type_synonym byte = "8 word"

type_synonym addr = string

record indexed =
  index :: nat

record chunk = indexed +
  data :: "byte list"

record leaf = indexed +
  address :: addr

section \<open>The remote endpoint and the observable effects\<close>

text \<open>
  The loaders are sequential \<^verbatim>\<open>async\<close> code whose only inputs besides their
  arguments are the results of remote reads and of \<^verbatim>\<open>Math.random()\<close>.  Both are
  supplied by an environment: \<open>rd env n a\<close> is the outcome of the read of address
  \<open>a\<close> issued when \<open>n\<close> reads have been issued before it (the error message of the
  rejected promise, or the payload bytes), and \<open>jitter env n\<close> is the whole number of
  milliseconds contributed by the \<open>n\<close>-th draw \<^verbatim>\<open>Math.random() * 500\<close>.  Any run
  of the code is the run under some such environment.

  What the code does to the outside is recorded in a world value: the number of
  reads and random draws so far, and the chronological trace of reads, timer waits,
  log lines and progress callbacks.
\<close>

text \<open>
  The lines written by \<^verbatim>\<open>log\<close>, one constructor per template, with the interpolated
  values as arguments.
\<close>

datatype message =
    FailedToTraverse string
  | FailedChunk nat string
  | RetryRound nat nat
  | PermanentlyFailed nat
  | StartingLoad
  | Phase1
  | FoundLeafChunks nat
  | Phase2
  | LoadedAndFailed nat nat
  | Phase3
  | Complete nat nat
  | RetryFailed string
  | ScanFailed string
  | RetryingChild nat nat
  | StartingScan
  | ScanComplete nat
  | AllLoaded nat

datatype event =
    Read addr
  | Sleep nat
  | Log message
  | Found nat
  | Progress nat nat

record world =
  reads :: nat
  draws :: nat
  trace :: "event list"

record env =
  rd :: "nat \<Rightarrow> addr \<Rightarrow> string + byte list"
  jitter :: "nat \<Rightarrow> nat"

text \<open>
  An awaited call of an \<^verbatim>\<open>async\<close> function either returns a value, throws, or falls
  off the end of its body and yields \<^verbatim>\<open>undefined\<close>.
\<close>

datatype 'a completion = Returned 'a | Threw string | Undefined

text \<open>\<^verbatim>\<open>await new Promise(r => setTimeout(r, ms))\<close>\<close>

definition sleep :: "nat \<Rightarrow> 'w world_scheme \<Rightarrow> 'w world_scheme" where
  "sleep ms w = w\<lparr>trace := trace w @ [Sleep ms]\<rparr>"

text \<open>\<^verbatim>\<open>log(msg)\<close>\<close>

definition log :: "message \<Rightarrow> 'w world_scheme \<Rightarrow> 'w world_scheme" where
  "log msg w = w\<lparr>trace := trace w @ [Log msg]\<rparr>"

text \<open>
  One remote read: \<^verbatim>\<open>client.readContract({address, abi, functionName: 'read'})\<close>
  followed by \<^verbatim>\<open>hexToBytes\<close>, or \<^verbatim>\<open>contract.read()\<close> followed by
  \<^verbatim>\<open>ethers.getBytes\<close>.
\<close>

definition readContract ::
  "env \<Rightarrow> addr \<Rightarrow> 'w world_scheme \<Rightarrow> (string + byte list) \<times> 'w world_scheme" where
  "readContract env a w =
     (rd env (reads w) a, w\<lparr>reads := reads w + 1, trace := trace w @ [Read a]\<rparr>)"

section \<open>The retry primitives\<close>

text \<open>
  \<^verbatim>\<open>fetchChunkData(address, retries = 3)\<close> (and the identical method
  \<^verbatim>\<open>_fetchChunkData\<close>): the loop \<^verbatim>\<open>for (let i = 0; i < retries; i++)\<close> with the
  read inside \<^verbatim>\<open>try\<close>; the handler rethrows on the last iteration and otherwise
  waits \<^verbatim>\<open>Math.min(200 * Math.pow(2, i), 2000)\<close>.  When the loop ends without
  returning, the function yields \<^verbatim>\<open>undefined\<close>.
\<close>

function fetchChunkData_loop ::
  "env \<Rightarrow> addr \<Rightarrow> int \<Rightarrow> nat \<Rightarrow> 'w world_scheme \<Rightarrow> byte list completion \<times> 'w world_scheme" where
  "fetchChunkData_loop env a retries i w =
     (if int i < retries then
        (case readContract env a w of
           (Inr bytes, w') \<Rightarrow> (Returned bytes, w')
         | (Inl err, w') \<Rightarrow>
             if int i = retries - 1 then (Threw err, w')
             else fetchChunkData_loop env a retries (i + 1)
                    (sleep (min (200 * 2 ^ i) 2000) w'))
      else (Undefined, w))"
  by pat_completeness auto
termination
  by (relation "measure (\<lambda>(env, a, retries, i, w). nat (retries - int i))") auto

declare fetchChunkData_loop.simps [simp del]

definition fetchChunkData ::
  "env \<Rightarrow> addr \<Rightarrow> int \<Rightarrow> 'w world_scheme \<Rightarrow> byte list completion \<times> 'w world_scheme" where
  "fetchChunkData env a retries w = fetchChunkData_loop env a retries 0 w"

text \<open>
  \<^verbatim>\<open>fetchWithRetry(fn, retries = 10, baseDelay = 1000)\<close>: the same loop around an
  arbitrary thunk, waiting
  \<^verbatim>\<open>Math.min(baseDelay * Math.pow(2, i) + Math.random() * 500, 10000)\<close>.
\<close>

function fetchWithRetry_loop ::
  "env \<Rightarrow> ('w world_scheme \<Rightarrow> (string + 'a) \<times> 'w world_scheme) \<Rightarrow> int \<Rightarrow> nat \<Rightarrow> nat
     \<Rightarrow> 'w world_scheme \<Rightarrow> 'a completion \<times> 'w world_scheme" where
  "fetchWithRetry_loop env fn retries baseDelay i w =
     (if int i < retries then
        (case fn w of
           (Inr v, w') \<Rightarrow> (Returned v, w')
         | (Inl err, w') \<Rightarrow>
             if int i = retries - 1 then (Threw err, w')
             else fetchWithRetry_loop env fn retries baseDelay (i + 1)
                    (sleep (min (baseDelay * 2 ^ i + jitter env (draws w')) 10000)
                       (w'\<lparr>draws := draws w' + 1\<rparr>)))
      else (Undefined, w))"
  by pat_completeness auto
termination
  by (relation "measure (\<lambda>(env, fn, retries, baseDelay, i, w). nat (retries - int i))") auto

declare fetchWithRetry_loop.simps [simp del]

definition fetchWithRetry ::
  "env \<Rightarrow> ('w world_scheme \<Rightarrow> (string + 'a) \<times> 'w world_scheme) \<Rightarrow> int \<Rightarrow> nat
     \<Rightarrow> 'w world_scheme \<Rightarrow> 'a completion \<times> 'w world_scheme" where
  "fetchWithRetry env fn retries baseDelay w = fetchWithRetry_loop env fn retries baseDelay 0 w"

text \<open>\<^verbatim>\<open>fetchChunk(provider, address)\<close>: one read of the address.\<close>

definition fetchChunk ::
  "env \<Rightarrow> addr \<Rightarrow> 'w world_scheme \<Rightarrow> (string + byte list) \<times> 'w world_scheme" where
  "fetchChunk env a w = readContract env a w"

text \<open>
  The result the callers take from an awaited fetch.  Where the code goes on to use
  \<^verbatim>\<open>data.length\<close>, an \<^verbatim>\<open>undefined\<close> result raises a TypeError there; the callers
  modelled below all pass the literal budgets 2, 3 or 10, for which the primitive
  never yields \<^verbatim>\<open>undefined\<close> (lemma \<open>fetchChunkData_defined\<close>).
\<close>

fun awaited :: "byte list completion \<Rightarrow> string + byte list" where
  "awaited (Returned bytes) = Inr bytes"
| "awaited (Threw err) = Inl err"
| "awaited Undefined = Inl ''TypeError: Cannot read properties of undefined''"

subsection \<open>The backoff schedule in the words of the specification\<close>

text \<open>
  The delay after failed attempt \<open>i\<close>, for each primitive, and the event sequence of
  \<open>n + 1\<close> attempts numbered from \<open>i\<close>: every attempt but the last is followed by its
  delay, and nothing precedes the first.
\<close>

fun chunk_delay :: "nat \<Rightarrow> nat" where
  "chunk_delay i = min (200 * 2 ^ i) 2000"

fun retry_delay :: "env \<Rightarrow> nat \<Rightarrow> nat \<Rightarrow> nat \<Rightarrow> nat" where
  "retry_delay env baseDelay d0 i = min (baseDelay * 2 ^ i + jitter env (d0 + i)) 10000"

declare chunk_delay.simps [simp del] retry_delay.simps [simp del]

definition attempts :: "addr \<Rightarrow> (nat \<Rightarrow> nat) \<Rightarrow> nat \<Rightarrow> nat \<Rightarrow> event list" where
  "attempts a delay i n = concat (map (\<lambda>j. [Read a, Sleep (delay j)]) [i..<i + n]) @ [Read a]"

text \<open>The total time requested from timers in a trace.\<close>

fun waited :: "event list \<Rightarrow> nat" where
  "waited [] = 0"
| "waited (Sleep ms # es) = ms + waited es"
| "waited (_ # es) = waited es"

text \<open>Two endpoints for examples: one that fails twice and then answers, one that is down.\<close>

definition env_flaky :: env where
  "env_flaky = \<lparr>rd = (\<lambda>n a. if n < 2 then Inl ''timeout'' else Inr [1, 2, 3]),
                jitter = (\<lambda>n. 7 * n + 3)\<rparr>"

definition env_down :: env where
  "env_down = \<lparr>rd = (\<lambda>n a. Inl ''unreachable''), jitter = (\<lambda>n. 0)\<rparr>"

definition w0 :: world where
  "w0 = \<lparr>reads = 0, draws = 0, trace = []\<rparr>"

section \<open>Tree scan\<close>

text \<open>
  \<^verbatim>\<open>toHex(bytes)\<close>: the string \<^verbatim>\<open>0x\<close> followed by two lower-case hex digits per byte.
  \<^verbatim>\<open>data.slice(i, j)\<close> on a typed array, for \<open>0 \<le> i \<le> j\<close>, clamps at the end.
\<close>

definition hexdigit :: "nat \<Rightarrow> char" where
  "hexdigit n = ''0123456789abcdef'' ! (n mod 16)"

definition toHex :: "byte list \<Rightarrow> string" where
  "toHex bs = ''0x'' @ concat (map (\<lambda>b. [hexdigit (unat b div 16), hexdigit (unat b mod 16)]) bs)"

definition slice_arr :: "'a list \<Rightarrow> nat \<Rightarrow> nat \<Rightarrow> 'a list" where
  "slice_arr xs i j = take (j - i) (drop i xs)"

text \<open>
  \<^verbatim>\<open>for (let i = 0; i < data.length; i += 20) childAddrs.push(toHex(data.slice(i, i + 20)))\<close>
\<close>

function childAddrs_loop :: "byte list \<Rightarrow> nat \<Rightarrow> addr list \<Rightarrow> addr list" where
  "childAddrs_loop bytes i childAddrs =
     (if i < length bytes
      then childAddrs_loop bytes (i + 20) (childAddrs @ [toHex (slice_arr bytes i (i + 20))])
      else childAddrs)"
  by pat_completeness auto
termination
  by (relation "measure (\<lambda>(bytes, i, childAddrs). length bytes - i)") auto

declare childAddrs_loop.simps [simp del]

definition childAddrs :: "byte list \<Rightarrow> addr list" where
  "childAddrs bytes = childAddrs_loop bytes 0 []"

subsection \<open>\<^verbatim>\<open>OnChainLoaderV2._collectLeaves\<close>\<close>

text \<open>
  The closure \<^verbatim>\<open>traverse(address, nodeDepth)\<close> pushes onto the shared array
  \<^verbatim>\<open>leaves\<close> and reports \<^verbatim>\<open>onFound(leaves.length)\<close> at depth 0; above, it fetches the
  node with the default budget of 3, splits it and awaits the children in array order.
  An exception leaves every enclosing call at once.  \<open>traverse_children\<close> is the loop
  \<^verbatim>\<open>for (const childAddr of childAddrs) await traverse(childAddr, nodeDepth - 1)\<close>.
\<close>

fun traverse ::
    "env \<Rightarrow> addr \<Rightarrow> nat \<Rightarrow> addr list \<times> 'w world_scheme
       \<Rightarrow> (string + unit) \<times> addr list \<times> 'w world_scheme"
  and traverse_children ::
    "env \<Rightarrow> addr list \<Rightarrow> nat \<Rightarrow> addr list \<times> 'w world_scheme
       \<Rightarrow> (string + unit) \<times> addr list \<times> 'w world_scheme" where
  "traverse env a 0 (leaves, w) =
     (Inr (), leaves @ [a], w\<lparr>trace := trace w @ [Found (length leaves + 1)]\<rparr>)"
| "traverse env a (Suc d) (leaves, w) =
     (case fetchChunkData env a 3 w of
        (c, w') \<Rightarrow>
          (case awaited c of
             Inl err \<Rightarrow> (Inl err, leaves, w')
           | Inr bytes \<Rightarrow> traverse_children env (childAddrs bytes) d (leaves, w')))"
| "traverse_children env [] d (leaves, w) = (Inr (), leaves, w)"
| "traverse_children env (c # cs) d (leaves, w) =
     (case traverse env c d (leaves, w) of
        (Inl err, s) \<Rightarrow> (Inl err, s)
      | (Inr u, s) \<Rightarrow> traverse_children env cs d s)"

definition collectLeaves ::
  "env \<Rightarrow> addr \<Rightarrow> nat \<Rightarrow> 'w world_scheme \<Rightarrow> (string + addr list) \<times> 'w world_scheme" where
  "collectLeaves env rootChunk depth w =
     (case traverse env rootChunk depth ([], w) of
        (Inl err, leaves, w') \<Rightarrow> (Inl err, w')
      | (Inr u, leaves, w') \<Rightarrow> (Inr leaves, w'))"

subsection \<open>The loader page: \<^verbatim>\<open>collectLeafAddresses\<close>\<close>

text \<open>
  The page keeps, besides the world, the classes of its grid cells and three counters.
  Writes of text into the document (\<^verbatim>\<open>setPhase\<close>, \<^verbatim>\<open>updateDonutChart\<close>) are left
  out: nothing reads them back.
\<close>

datatype cellclass = Pending | Scanned | Loading | Loaded | Failed

record page = world +
  cells :: "cellclass list"
  scannedChunks :: nat
  loadedChunks :: nat
  bytesLoaded :: nat
  isRetrying :: bool

text \<open>
  \<^verbatim>\<open>if (index >= 0 && index < chunkCells.length) chunkCells[index].className = ...\<close>
\<close>

definition set_cell :: "nat \<Rightarrow> cellclass \<Rightarrow> 'p page_scheme \<Rightarrow> 'p page_scheme" where
  "set_cell i cls p = (if i < length (cells p) then p\<lparr>cells := (cells p)[i := cls]\<rparr> else p)"

definition updateChunkScanned :: "nat \<Rightarrow> 'p page_scheme \<Rightarrow> 'p page_scheme" where
  "updateChunkScanned i p = (set_cell i Scanned p)\<lparr>scannedChunks := scannedChunks p + 1\<rparr>"

definition updateChunkLoading :: "nat \<Rightarrow> 'p page_scheme \<Rightarrow> 'p page_scheme" where
  "updateChunkLoading i p = set_cell i Loading p"

definition updateChunkLoaded :: "nat \<Rightarrow> 'p page_scheme \<Rightarrow> 'p page_scheme" where
  "updateChunkLoaded i p = (set_cell i Loaded p)\<lparr>loadedChunks := loadedChunks p + 1\<rparr>"

definition updateChunkFailed :: "nat \<Rightarrow> 'p page_scheme \<Rightarrow> 'p page_scheme" where
  "updateChunkFailed i p = set_cell i Failed p"

definition updateChunkRetrying :: "nat \<Rightarrow> 'p page_scheme \<Rightarrow> 'p page_scheme" where
  "updateChunkRetrying i p = set_cell i Loading p"

text \<open>
  \<^verbatim>\<open>traverseNode\<close> pushes \<^verbatim>\<open>{ index: currentIndex++, address }\<close> at depth 0 and marks
  cell \<^verbatim>\<open>leaves.length - 1\<close>.  Above depth 0 its whole body is inside
  \<^verbatim>\<open>try { ... } catch (err) { log(...); throw err; }\<close>, so a failure is logged once by
  every enclosing node as it propagates; the log shows the first ten characters of
  the node address.
\<close>

fun traverseNode ::
    "env \<Rightarrow> addr \<Rightarrow> nat \<Rightarrow> leaf list \<times> nat \<times> 'p page_scheme
       \<Rightarrow> (string + unit) \<times> leaf list \<times> nat \<times> 'p page_scheme"
  and traverseNode_children ::
    "env \<Rightarrow> addr list \<Rightarrow> nat \<Rightarrow> leaf list \<times> nat \<times> 'p page_scheme
       \<Rightarrow> (string + unit) \<times> leaf list \<times> nat \<times> 'p page_scheme" where
  "traverseNode env a 0 (leaves, currentIndex, p) =
     (Inr (), leaves @ [\<lparr>index = currentIndex, address = a\<rparr>], currentIndex + 1,
      updateChunkScanned (length leaves + 1 - 1) p)"
| "traverseNode env a (Suc d) (leaves, currentIndex, p) =
     (case fetchChunkData env a 3 p of
        (c, p') \<Rightarrow>
          (case awaited c of
             Inl err \<Rightarrow> (Inl err, leaves, currentIndex, log (FailedToTraverse (take 10 a)) p')
           | Inr bytes \<Rightarrow>
               (case traverseNode_children env (childAddrs bytes) d (leaves, currentIndex, p') of
                  (Inl err, leaves', currentIndex', p'') \<Rightarrow>
                    (Inl err, leaves', currentIndex', log (FailedToTraverse (take 10 a)) p'')
                | (Inr u, s) \<Rightarrow> (Inr u, s))))"
| "traverseNode_children env [] d (leaves, currentIndex, p) = (Inr (), leaves, currentIndex, p)"
| "traverseNode_children env (c # cs) d (leaves, currentIndex, p) =
     (case traverseNode env c d (leaves, currentIndex, p) of
        (Inl err, s) \<Rightarrow> (Inl err, s)
      | (Inr u, s) \<Rightarrow> traverseNode_children env cs d s)"

definition collectLeafAddresses ::
  "env \<Rightarrow> addr \<Rightarrow> nat \<Rightarrow> 'p page_scheme \<Rightarrow> (string + leaf list) \<times> 'p page_scheme" where
  "collectLeafAddresses env rootChunk depth p =
     (case traverseNode env rootChunk depth ([], 0, p) of
        (Inl err, leaves, currentIndex, p') \<Rightarrow> (Inl err, p')
      | (Inr u, leaves, currentIndex, p') \<Rightarrow> (Inr leaves, p'))"

subsection \<open>Trees as the specification describes them\<close>

text \<open>
  A tree of node addresses: a leaf, or an internal node with its subtrees in payload
  order.  \<open>fringe\<close> lists the leaves depth first, left to right.  \<open>records\<close> cuts a
  payload into 20-byte records, the last one shorter when the length is not a multiple
  of 20.  \<open>stored st d t\<close> says that the store \<open>st\<close> (address to payload) holds the tree
  \<open>t\<close> with every leaf at depth \<open>d\<close>: the payload of each internal node is the
  concatenation of the 20-byte addresses of its children.
\<close>

datatype tree = Leaf addr | Node addr "tree list"

fun ident :: "tree \<Rightarrow> addr" where
  "ident (Leaf a) = a"
| "ident (Node a ts) = a"

fun fringe :: "tree \<Rightarrow> addr list" where
  "fringe (Leaf a) = [a]"
| "fringe (Node a ts) = concat (map fringe ts)"

definition records :: "byte list \<Rightarrow> byte list list" where
  "records bs = map (\<lambda>k. take 20 (drop (20 * k) bs)) [0..<(length bs + 19) div 20]"

fun stored :: "(addr \<Rightarrow> byte list) \<Rightarrow> nat \<Rightarrow> tree \<Rightarrow> bool" where
  "stored st 0 (Leaf a) = True"
| "stored st (Suc d) (Node a ts) =
     (length (st a) mod 20 = 0 \<and> map ident ts = map toHex (records (st a))
      \<and> (\<forall>t \<in> set ts. stored st d t))"
| "stored st d t = False"

text \<open>The leaf list with indices counted up from \<open>i\<close>.\<close>

fun numbered :: "nat \<Rightarrow> addr list \<Rightarrow> leaf list" where
  "numbered i [] = []"
| "numbered i (a # as) = \<lparr>index = i, address = a\<rparr> # numbered (Suc i) as"

text \<open>
  \<open>visits env x y\<close>: while running \<^verbatim>\<open>traverse\<close> from the call \<open>x\<close> (address, depth, leaves
  so far, world), the call \<open>y\<close> is made.  A node calls its children in order, each after
  the children before it have returned normally.  \<open>visitsNode\<close> is the same relation
  for \<^verbatim>\<open>traverseNode\<close>.
\<close>

inductive visits ::
  "env \<Rightarrow> addr \<times> nat \<times> addr list \<times> 'w world_scheme
       \<Rightarrow> addr \<times> nat \<times> addr list \<times> 'w world_scheme \<Rightarrow> bool" for env where
  visits_self: "visits env x x"
| visits_child:
    "fetchChunkData env a 3 w = (Returned bytes, w1) \<Longrightarrow>
     childAddrs bytes = before @ c # after \<Longrightarrow>
     traverse_children env before d (leaves, w1) = (Inr (), leaves2, w2) \<Longrightarrow>
     visits env (c, d, leaves2, w2) y \<Longrightarrow>
     visits env (a, Suc d, leaves, w) y"

inductive visitsNode ::
  "env \<Rightarrow> addr \<times> nat \<times> leaf list \<times> nat \<times> 'p page_scheme
       \<Rightarrow> addr \<times> nat \<times> leaf list \<times> nat \<times> 'p page_scheme \<Rightarrow> bool" for env where
  visitsNode_self: "visitsNode env x x"
| visitsNode_child:
    "fetchChunkData env a 3 p = (Returned bytes, p1) \<Longrightarrow>
     childAddrs bytes = before @ c # after \<Longrightarrow>
     traverseNode_children env before d (leaves, i, p1) = (Inr (), leaves2, i2, p2) \<Longrightarrow>
     visitsNode env (c, d, leaves2, i2, p2) y \<Longrightarrow>
     visitsNode env (a, Suc d, leaves, i, p) y"

text \<open>An endpoint that answers every read of an address with the stored payload.\<close>

definition serves :: "env \<Rightarrow> (addr \<Rightarrow> byte list) \<Rightarrow> bool" where
  "serves env st = (\<forall>n a. rd env n a = Inr (st a))"

subsection \<open>Example stores\<close>

text \<open>
  A tree of depth 2 with three leaves, one under the first child of the root and two
  under the second; and a store whose root payload is 25 bytes long.
\<close>

definition idA :: "byte list" where "idA = replicate 20 0xA1"
definition idB :: "byte list" where "idB = replicate 20 0xB2"
definition idL1 :: "byte list" where "idL1 = replicate 20 0x01"
definition idL2 :: "byte list" where "idL2 = replicate 20 0x02"
definition idL3 :: "byte list" where "idL3 = replicate 20 0x03"

definition st_demo :: "addr \<Rightarrow> byte list" where
  "st_demo a =
     (if a = ''0xroot'' then idA @ idB
      else if a = toHex idA then idL1
      else if a = toHex idB then idL2 @ idL3
      else [])"

definition env_demo :: env where
  "env_demo = \<lparr>rd = (\<lambda>n a. Inr (st_demo a)), jitter = (\<lambda>n. 0)\<rparr>"

definition tree_demo :: tree where
  "tree_demo =
     Node ''0xroot'' [Node (toHex idA) [Leaf (toHex idL1)],
                      Node (toHex idB) [Leaf (toHex idL2), Leaf (toHex idL3)]]"

definition page0 :: page where
  "page0 = \<lparr>reads = 0, draws = 0, trace = [], cells = [Pending, Pending, Pending],
            scannedChunks = 0, loadedChunks = 0, bytesLoaded = 0, isRetrying = False\<rparr>"

definition payload25 :: "byte list" where
  "payload25 = [1, 2, 3, 4, 5, 6, 7, 8, 9, 10, 11, 12, 13, 14, 15, 16, 17, 18, 19, 20,
                21, 22, 23, 24, 25]"

definition env25 :: env where
  "env25 = \<lparr>rd = (\<lambda>n a. if a = ''0xroot'' then Inr payload25 else Inl ''unreachable''),
            jitter = (\<lambda>n. 0)\<rparr>"

section \<open>Assembler: \<^verbatim>\<open>_assembleChunks\<close>\<close>

text \<open>
  \<^verbatim>\<open>chunks.reduce((sum, c) => sum + c.data.length, 0)\<close>
\<close>

definition totalBytes :: "chunk list \<Rightarrow> nat" where
  "totalBytes chunks = foldl (\<lambda>sum c. sum + length (data c)) 0 chunks"

text \<open>
  \<^verbatim>\<open>finalData.set(src, offset)\<close> overwrites \<open>length src\<close> bytes at \<open>offset\<close>; the
  typed array raises a RangeError (here \<open>None\<close>) when the source does not fit.
\<close>

definition typed_set :: "byte list \<Rightarrow> byte list \<Rightarrow> nat \<Rightarrow> byte list option" where
  "typed_set buf src offset =
     (if offset + length src \<le> length buf
      then Some (take offset buf @ src @ drop (offset + length src) buf)
      else None)"

text \<open>
  The copy loop \<^verbatim>\<open>for (const chunk of chunks) { finalData.set(chunk.data, offset);
  offset += chunk.data.length; }\<close>
\<close>

fun fill :: "chunk list \<Rightarrow> nat \<Rightarrow> byte list \<Rightarrow> byte list option" where
  "fill [] offset finalData = Some finalData"
| "fill (c # cs) offset finalData =
     (case typed_set finalData (data c) offset of
        None \<Rightarrow> None
      | Some finalData' \<Rightarrow> fill cs (offset + length (data c)) finalData')"

text \<open>
  \<^verbatim>\<open>chunks.sort((a, b) => a.index - b.index)\<close> is a stable sort by index
  (\<^const>\<open>sort_key\<close> is the stable insertion sort); the buffer is a zero-filled
  \<^verbatim>\<open>new Uint8Array(totalBytes)\<close>.  The same statements are inlined at the end of
  \<^verbatim>\<open>fetchTreeSequential\<close>.
\<close>

definition assembleChunks :: "chunk list \<Rightarrow> byte list option" where
  "assembleChunks chunks =
     (let sorted = sort_key index chunks;
          finalData = replicate (totalBytes sorted) 0
      in fill sorted 0 finalData)"

text \<open>
  The assembler as the specification words it: the completed chunks are a finite map
  from index to payload, and the output is the concatenation of the payloads in
  ascending index order.
\<close>

definition chunk_map :: "chunk list \<Rightarrow> (nat \<rightharpoonup> byte list)" where
  "chunk_map cs = map_of (map (\<lambda>c. (index c, data c)) cs)"

definition assemble_spec :: "(nat \<rightharpoonup> byte list) \<Rightarrow> byte list" where
  "assemble_spec m = concat (map (\<lambda>i. the (m i)) (sorted_list_of_set (dom m)))"

section \<open>Phased loading\<close>

subsection \<open>\<^verbatim>\<open>OnChainLoaderV2._loadChunks\<close> and \<^verbatim>\<open>getData\<close>\<close>

text \<open>
  First pass: \<^verbatim>\<open>for (let i = 0; i < leaves.length; i++)\<close>, reporting
  \<^verbatim>\<open>onProgress(i + 1, leaves.length)\<close> and fetching \<^verbatim>\<open>leaves[i]\<close> with a budget of 2;
  a success is pushed as \<^verbatim>\<open>{ index: i, data }\<close>, a failure as
  \<^verbatim>\<open>{ index: i, address: leaves[i] }\<close>.
\<close>

fun loadChunks_pass ::
  "env \<Rightarrow> addr list \<Rightarrow> nat \<Rightarrow> nat \<Rightarrow> chunk list \<times> leaf list \<times> 'w world_scheme
     \<Rightarrow> chunk list \<times> leaf list \<times> 'w world_scheme" where
  "loadChunks_pass env [] i n (chunks, failed, w) = (chunks, failed, w)"
| "loadChunks_pass env (a # rest) i n (chunks, failed, w) =
     (case fetchChunkData env a 2 (w\<lparr>trace := trace w @ [Progress (i + 1) n]\<rparr>) of
        (c, w') \<Rightarrow>
          (case awaited c of
             Inr bytes \<Rightarrow>
               loadChunks_pass env rest (i + 1) n (chunks @ [\<lparr>index = i, data = bytes\<rparr>], failed, w')
           | Inl err \<Rightarrow>
               loadChunks_pass env rest (i + 1) n (chunks, failed @ [\<lparr>index = i, address = a\<rparr>], w')))"

text \<open>
  One retry round's loop \<^verbatim>\<open>for (const item of toRetry)\<close>: fetch with a budget of 3,
  push the chunk or keep the item, then wait 100 ms in either case.
\<close>

fun loadChunks_retry ::
  "env \<Rightarrow> leaf list \<Rightarrow> chunk list \<times> leaf list \<times> 'w world_scheme
     \<Rightarrow> chunk list \<times> leaf list \<times> 'w world_scheme" where
  "loadChunks_retry env [] (chunks, stillFailed, w) = (chunks, stillFailed, w)"
| "loadChunks_retry env (item # rest) (chunks, stillFailed, w) =
     (case fetchChunkData env (address item) 3 w of
        (c, w') \<Rightarrow>
          (case awaited c of
             Inr bytes \<Rightarrow>
               loadChunks_retry env rest
                 (chunks @ [\<lparr>index = index item, data = bytes\<rparr>], stillFailed, sleep 100 w')
           | Inl err \<Rightarrow>
               loadChunks_retry env rest (chunks, stillFailed @ [item], sleep 100 w')))"

text \<open>
  \<^verbatim>\<open>while (toRetry.length > 0 && retryRound < 5)\<close>: count the round, wait
  \<^verbatim>\<open>500 * retryRound\<close>, run the round, continue with the items that still failed.
  The result keeps the final \<^verbatim>\<open>toRetry\<close> beside the chunks.
\<close>

function loadChunks_rounds ::
  "env \<Rightarrow> leaf list \<Rightarrow> nat \<Rightarrow> chunk list \<times> 'w world_scheme
     \<Rightarrow> chunk list \<times> leaf list \<times> 'w world_scheme" where
  "loadChunks_rounds env toRetry retryRound (chunks, w) =
     (if toRetry \<noteq> [] \<and> retryRound < 5 then
        (case loadChunks_retry env toRetry (chunks, [], sleep (500 * (retryRound + 1)) w) of
           (chunks', stillFailed, w') \<Rightarrow>
             loadChunks_rounds env stillFailed (retryRound + 1) (chunks', w'))
      else (chunks, toRetry, w))"
  by pat_completeness auto
termination
  by (relation "measure (\<lambda>(env, toRetry, retryRound, s). 5 - retryRound)") auto

declare loadChunks_rounds.simps [simp del]

definition loadChunks ::
  "env \<Rightarrow> addr list \<Rightarrow> 'w world_scheme \<Rightarrow> chunk list \<times> 'w world_scheme" where
  "loadChunks env leaves w =
     (case loadChunks_pass env leaves 0 (length leaves) ([], [], w) of
        (chunks, failed, w1) \<Rightarrow>
          (case loadChunks_rounds env failed 0 (chunks, w1) of
             (chunks', toRetry, w2) \<Rightarrow> (chunks', w2)))"

text \<open>
  \<^verbatim>\<open>getData\<close> after it has read \<^verbatim>\<open>{ rootChunk, depth }\<close> from the master contract:
  scan, load, assemble.  An exception of the scan leaves the function at once.
\<close>

definition getData ::
  "env \<Rightarrow> addr \<Rightarrow> nat \<Rightarrow> 'w world_scheme \<Rightarrow> (string + byte list) \<times> 'w world_scheme" where
  "getData env rootChunk depth w =
     (case collectLeaves env rootChunk depth w of
        (Inl err, w1) \<Rightarrow> (Inl err, w1)
      | (Inr leaves, w1) \<Rightarrow>
          (case loadChunks env leaves w1 of
             (chunks, w2) \<Rightarrow>
               (case assembleChunks chunks of
                  None \<Rightarrow> (Inl ''RangeError: offset is out of bounds'', w2)
                | Some finalData \<Rightarrow> (Inr finalData, w2))))"

subsection \<open>The loader page: \<^verbatim>\<open>loadChunksSequentially\<close>, \<^verbatim>\<open>retryFailedChunks\<close>,
  \<^verbatim>\<open>fetchTreeSequential\<close>\<close>

text \<open>
  The page's first pass marks the cell of the leaf as loading, fetches with a budget
  of 2, and then either pushes \<^verbatim>\<open>{ index: leaf.index, data }\<close>, adds to
  \<^verbatim>\<open>bytesLoaded\<close> and marks the cell loaded, or pushes the leaf onto \<^verbatim>\<open>failed\<close>, marks
  the cell failed and logs \<^verbatim>\<open>Failed chunk ${i + 1}: ${err.message}\<close>.
\<close>

fun loadChunksSequentially_loop ::
  "env \<Rightarrow> leaf list \<Rightarrow> nat \<Rightarrow> chunk list \<times> leaf list \<times> 'p page_scheme
     \<Rightarrow> chunk list \<times> leaf list \<times> 'p page_scheme" where
  "loadChunksSequentially_loop env [] i (chunks, failed, p) = (chunks, failed, p)"
| "loadChunksSequentially_loop env (lf # rest) i (chunks, failed, p) =
     (case fetchChunkData env (address lf) 2 (updateChunkLoading (index lf) p) of
        (c, p') \<Rightarrow>
          (case awaited c of
             Inr bytes \<Rightarrow>
               loadChunksSequentially_loop env rest (i + 1)
                 (chunks @ [\<lparr>index = index lf, data = bytes\<rparr>], failed,
                  updateChunkLoaded (index lf) (p'\<lparr>bytesLoaded := bytesLoaded p' + length bytes\<rparr>))
           | Inl err \<Rightarrow>
               loadChunksSequentially_loop env rest (i + 1)
                 (chunks, failed @ [lf],
                  log (FailedChunk (i + 1) err) (updateChunkFailed (index lf) p'))))"

definition loadChunksSequentially ::
  "env \<Rightarrow> leaf list \<Rightarrow> 'p page_scheme \<Rightarrow> chunk list \<times> leaf list \<times> 'p page_scheme" where
  "loadChunksSequentially env leaves p = loadChunksSequentially_loop env leaves 0 ([], [], p)"

text \<open>The inner loop of a retry round of the page.\<close>

fun retryFailedChunks_items ::
  "env \<Rightarrow> leaf list \<Rightarrow> chunk list \<times> leaf list \<times> 'p page_scheme
     \<Rightarrow> chunk list \<times> leaf list \<times> 'p page_scheme" where
  "retryFailedChunks_items env [] (chunks, stillFailed, p) = (chunks, stillFailed, p)"
| "retryFailedChunks_items env (lf # rest) (chunks, stillFailed, p) =
     (case fetchChunkData env (address lf) 3 (updateChunkRetrying (index lf) p) of
        (c, p') \<Rightarrow>
          (case awaited c of
             Inr bytes \<Rightarrow>
               retryFailedChunks_items env rest
                 (chunks @ [\<lparr>index = index lf, data = bytes\<rparr>], stillFailed,
                  sleep 100 (updateChunkLoaded (index lf)
                               (p'\<lparr>bytesLoaded := bytesLoaded p' + length bytes\<rparr>)))
           | Inl err \<Rightarrow>
               retryFailedChunks_items env rest
                 (chunks, stillFailed @ [lf], sleep 100 (updateChunkFailed (index lf) p'))))"

text \<open>
  The page's \<^verbatim>\<open>while (toRetry.length > 0 && retryRound < 5)\<close>, which also logs
  \<^verbatim>\<open>Retry round ${retryRound}: ${toRetry.length} chunks\<close> before the wait.
\<close>

function retryFailedChunks_rounds ::
  "env \<Rightarrow> leaf list \<Rightarrow> nat \<Rightarrow> chunk list \<times> 'p page_scheme
     \<Rightarrow> chunk list \<times> leaf list \<times> 'p page_scheme" where
  "retryFailedChunks_rounds env toRetry retryRound (chunks, p) =
     (if toRetry \<noteq> [] \<and> retryRound < 5 then
        (case retryFailedChunks_items env toRetry
                (chunks, [],
                 sleep (500 * (retryRound + 1))
                   (log (RetryRound (retryRound + 1) (length toRetry)) p)) of
           (chunks', stillFailed, p') \<Rightarrow>
             retryFailedChunks_rounds env stillFailed (retryRound + 1) (chunks', p'))
      else (chunks, toRetry, p))"
  by pat_completeness auto
termination
  by (relation "measure (\<lambda>(env, toRetry, retryRound, s). 5 - retryRound)") auto

declare retryFailedChunks_rounds.simps [simp del]

text \<open>
  \<^verbatim>\<open>retryFailedChunks(failed, chunks)\<close> returns at once for an empty \<^verbatim>\<open>failed\<close>;
  otherwise it runs the rounds between \<^verbatim>\<open>isRetrying = true\<close> and
  \<^verbatim>\<open>isRetrying = false\<close> and, when items remain, logs
  \<^verbatim>\<open>${toRetry.length} chunks permanently failed\<close>.  It pushes onto the caller's
  \<^verbatim>\<open>chunks\<close> array, which the model returns.
\<close>

definition retryFailedChunks ::
  "env \<Rightarrow> leaf list \<Rightarrow> chunk list \<Rightarrow> 'p page_scheme \<Rightarrow> chunk list \<times> 'p page_scheme" where
  "retryFailedChunks env failed chunks p =
     (if failed = [] then (chunks, p)
      else
        (case retryFailedChunks_rounds env failed 0 (chunks, p\<lparr>isRetrying := True\<rparr>) of
           (chunks', toRetry, p') \<Rightarrow>
             (chunks',
              if toRetry \<noteq> []
              then log (PermanentlyFailed (length toRetry)) (p'\<lparr>isRetrying := False\<rparr>)
              else p'\<lparr>isRetrying := False\<rparr>)))"

text \<open>
  \<^verbatim>\<open>fetchTreeSequential(rootChunk, depth, totalSize)\<close>.  \<^verbatim>\<open>initChunkGrid(expectedTotal)\<close>
  resets the grid to \<open>expectedTotal\<close> pending cells; \<open>expectedTotal\<close> is the global that
  \<^verbatim>\<open>init\<close> sets to \<^verbatim>\<open>Math.ceil(totalSize / CHUNK_SIZE)\<close>.  The sort and the copy loop at
  the end are those of \<open>assembleChunks\<close>.
\<close>

definition fetchTreeSequential ::
  "env \<Rightarrow> nat \<Rightarrow> addr \<Rightarrow> nat \<Rightarrow> 'p page_scheme \<Rightarrow> (string + byte list) \<times> 'p page_scheme" where
  "fetchTreeSequential env expectedTotal rootChunk depth p =
     (case collectLeafAddresses env rootChunk depth
             (log Phase1 (log StartingLoad (p\<lparr>cells := replicate expectedTotal Pending\<rparr>))) of
        (Inl err, p1) \<Rightarrow> (Inl err, p1)
      | (Inr leaves, p1) \<Rightarrow>
          (case loadChunksSequentially env leaves
                  (log Phase2 (log (FoundLeafChunks (length leaves)) p1)) of
             (chunks, failed, p2) \<Rightarrow>
               (case (if failed \<noteq> []
                      then retryFailedChunks env failed chunks
                             (log Phase3 (log (LoadedAndFailed (length chunks) (length failed)) p2))
                      else (chunks, log (LoadedAndFailed (length chunks) (length failed)) p2)) of
                  (chunks', p3) \<Rightarrow>
                    (case assembleChunks chunks' of
                       None \<Rightarrow> (Inl ''RangeError: offset is out of bounds'', p3)
                     | Some finalData \<Rightarrow>
                         (Inr finalData,
                          log (Complete (length chunks') (length finalData)) p3)))))"

subsection \<open>The outcome of phased loading in the words of the specification\<close>










text \<open>The reads and timer waits of a trace, without log lines and progress callbacks.\<close>

fun is_net :: "event \<Rightarrow> bool" where
  "is_net (Read a) = True"
| "is_net (Sleep ms) = True"
| "is_net e = False"

definition net :: "event list \<Rightarrow> event list" where
  "net es = filter is_net es"

text \<open>Everything in a trace that is not a read or a wait: callbacks and log lines.\<close>

definition callbacks :: "event list \<Rightarrow> event list" where
  "callbacks es = filter (\<lambda>e. \<not> is_net e) es"


subsection \<open>Phased loading in the words of the specification, for any endpoint\<close>















section \<open>Encoding detection: \<^verbatim>\<open>_decodeContent\<close>\<close>

text \<open>
  Text is a list of code points.  The three decoders are the platform's
  \<^verbatim>\<open>TextDecoder\<close>, here written out after the Encoding Standard, in replacement mode
  (\<^verbatim>\<open>fatal: false\<close>): an ill-formed sequence yields U+FFFD.

  The label \<^verbatim>\<open>'ascii'\<close> selects windows-1252: a byte below \<open>0x80\<close> is its own code
  point, \<open>0x80 .. 0x9F\<close> go through the table below, and \<open>0xA0 .. 0xFF\<close> are again
  their own code points.
\<close>

type_synonym ustring = "nat list"

definition index_windows_1252 :: "nat list" where
  "index_windows_1252 =
     [0x20AC, 0x0081, 0x201A, 0x0192, 0x201E, 0x2026, 0x2020, 0x2021,
      0x02C6, 0x2030, 0x0160, 0x2039, 0x0152, 0x008D, 0x017D, 0x008F,
      0x0090, 0x2018, 0x2019, 0x201C, 0x201D, 0x2022, 0x2013, 0x2014,
      0x02DC, 0x2122, 0x0161, 0x203A, 0x0153, 0x009D, 0x017E, 0x0178]"

definition windows_1252 :: "nat \<Rightarrow> nat" where
  "windows_1252 b =
     (if b < 0x80 then b
      else if b < 0xA0 then index_windows_1252 ! (b - 0x80)
      else b)"

definition ascii_decode :: "byte list \<Rightarrow> ustring" where
  "ascii_decode bytes = map (\<lambda>b. windows_1252 (unat b)) bytes"

text \<open>
  The UTF-8 decoder: the state is the code point under construction, the
  continuation bytes seen and needed, and the bounds for the next byte.  A byte that
  cannot continue a sequence ends it with U+FFFD and is then decoded afresh.
  \<open>cp * 64 + b mod 64\<close> is \<^verbatim>\<open>(cp << 6) | (b & 0x3F)\<close>.
\<close>

function utf8_loop :: "nat \<Rightarrow> nat \<Rightarrow> nat \<Rightarrow> nat \<Rightarrow> nat \<Rightarrow> nat list \<Rightarrow> ustring" where
  "utf8_loop cp seen needed lower upper [] = (if needed \<noteq> 0 then [0xFFFD] else [])"
| "utf8_loop cp seen needed lower upper (b # bs) =
     (if needed = 0 then
        (if b \<le> 0x7F then b # utf8_loop 0 0 0 0x80 0xBF bs
         else if 0xC2 \<le> b \<and> b \<le> 0xDF then utf8_loop (b mod 32) 0 1 0x80 0xBF bs
         else if 0xE0 \<le> b \<and> b \<le> 0xEF then
           utf8_loop (b mod 16) 0 2 (if b = 0xE0 then 0xA0 else 0x80)
             (if b = 0xED then 0x9F else 0xBF) bs
         else if 0xF0 \<le> b \<and> b \<le> 0xF4 then
           utf8_loop (b mod 8) 0 3 (if b = 0xF0 then 0x90 else 0x80)
             (if b = 0xF4 then 0x8F else 0xBF) bs
         else 0xFFFD # utf8_loop 0 0 0 0x80 0xBF bs)
      else if b < lower \<or> upper < b then 0xFFFD # utf8_loop 0 0 0 0x80 0xBF (b # bs)
      else if seen + 1 \<noteq> needed then utf8_loop (cp * 64 + b mod 64) (seen + 1) needed 0x80 0xBF bs
      else (cp * 64 + b mod 64) # utf8_loop 0 0 0 0x80 0xBF bs)"
  by pat_completeness auto
termination
  by (relation "measure (\<lambda>(cp, seen, needed, lower, upper, bs).
                  2 * length bs + (if needed = 0 then 0 else 1))") auto

text \<open>\<^verbatim>\<open>new TextDecoder('utf-8').decode(data)\<close> also drops a leading byte order mark.\<close>

definition utf8_decode :: "byte list \<Rightarrow> ustring" where
  "utf8_decode bytes =
     (case utf8_loop 0 0 0 0x80 0xBF (map unat bytes) of
        c # cs \<Rightarrow> if c = 0xFEFF then cs else c # cs
      | [] \<Rightarrow> [])"

text \<open>
  The EUC-KR decoder, with the standard's index EUC-KR as the parameter \<open>idx\<close> (pointer
  to code point): a lead byte \<open>0x81 .. 0xFE\<close> and a trail byte \<open>0x41 .. 0xFE\<close> give the
  pointer \<open>(lead - 0x81) * 190 + (trail - 0x41)\<close>; a pair without entry yields U+FFFD,
  and an ASCII trail byte is then decoded afresh.
\<close>

function euckr_loop :: "(nat \<Rightarrow> nat option) \<Rightarrow> nat \<Rightarrow> nat list \<Rightarrow> ustring" where
  "euckr_loop idx lead [] = (if lead \<noteq> 0 then [0xFFFD] else [])"
| "euckr_loop idx lead (b # bs) =
     (if lead \<noteq> 0 then
        (case (if 0x41 \<le> b \<and> b \<le> 0xFE then idx ((lead - 0x81) * 190 + (b - 0x41)) else None) of
           Some c \<Rightarrow> c # euckr_loop idx 0 bs
         | None \<Rightarrow>
             if b \<le> 0x7F then 0xFFFD # euckr_loop idx 0 (b # bs)
             else 0xFFFD # euckr_loop idx 0 bs)
      else if b \<le> 0x7F then b # euckr_loop idx 0 bs
      else if 0x81 \<le> b \<and> b \<le> 0xFE then euckr_loop idx b bs
      else 0xFFFD # euckr_loop idx 0 bs)"
  by pat_completeness auto
termination
  by (relation "measure (\<lambda>(idx, lead, bs). 2 * length bs + (if lead = 0 then 0 else 1))") auto

definition euckr_decode :: "(nat \<Rightarrow> nat option) \<Rightarrow> byte list \<Rightarrow> ustring" where
  "euckr_decode idx bytes = euckr_loop idx 0 (map unat bytes)"

subsection \<open>The regular expression\<close>

text \<open>
  \<^verbatim>\<open>/charset=["']?(euc-kr|cp949|ks_c_5601-1987)/i\<close>.  Under the flag \<^verbatim>\<open>i\<close> two
  characters match when their canonical forms agree: the upper-case form, except
  that a character outside ASCII never takes an ASCII canonical form.  The pattern is
  all ASCII, so only the ASCII part of the canonical form matters; characters outside
  ASCII are left as they are.
\<close>

definition canonicalize :: "nat \<Rightarrow> nat" where
  "canonicalize ch = (if 97 \<le> ch \<and> ch \<le> 122 then ch - 32 else ch)"

definition codes :: "string \<Rightarrow> nat list" where
  "codes s = map of_char s"

text \<open>Match a literal at the start of the input; the result is the rest of the input.\<close>

fun literal :: "nat list \<Rightarrow> ustring \<Rightarrow> ustring option" where
  "literal [] s = Some s"
| "literal (c # cs) [] = None"
| "literal (c # cs) (x # s) =
     (if canonicalize x = canonicalize c then literal cs s else None)"

text \<open>The alternation, tried left to right.\<close>

definition alternatives :: "ustring \<Rightarrow> bool" where
  "alternatives s =
     (literal (codes ''euc-kr'') s \<noteq> None
      \<or> literal (codes ''cp949'') s \<noteq> None
      \<or> literal (codes ''ks_c_5601-1987'') s \<noteq> None)"

text \<open>
  A match starting at the head of the input: the literal, then the greedy optional
  quote (\<open>34\<close> or \<open>39\<close>), with backtracking to the empty match when the alternation
  fails behind the quote.
\<close>

definition match_here :: "ustring \<Rightarrow> bool" where
  "match_here s =
     (case literal (codes ''charset='') s of
        None \<Rightarrow> False
      | Some r \<Rightarrow>
          (case r of
             x # t \<Rightarrow> if x = 34 \<or> x = 39 then alternatives t \<or> alternatives r
                      else alternatives r
           | [] \<Rightarrow> alternatives r))"

text \<open>\<^verbatim>\<open>asciiPreview.match(...)\<close> tries every start position; only whether it matched is used.\<close>

fun charsetMatch :: "ustring \<Rightarrow> bool" where
  "charsetMatch [] = match_here []"
| "charsetMatch (x # s) = (match_here (x # s) \<or> charsetMatch s)"

definition decodeContent :: "(nat \<Rightarrow> nat option) \<Rightarrow> byte list \<Rightarrow> ustring" where
  "decodeContent idx bytes =
     (let asciiPreview = ascii_decode (slice_arr bytes 0 2000)
      in if charsetMatch asciiPreview then euckr_decode idx bytes else utf8_decode bytes)"

subsection \<open>The marker in the words of the specification\<close>

text \<open>
  A buffer declares a Korean charset when, with upper-case ASCII letters lowered, its
  bytes contain \<open>charset=\<close>, optionally a quote, and one of the three aliases.
\<close>

definition to_lower :: "nat \<Rightarrow> nat" where
  "to_lower b = (if 65 \<le> b \<and> b \<le> 90 then b + 32 else b)"

definition lower_byte :: "byte \<Rightarrow> nat" where
  "lower_byte b = to_lower (unat b)"

definition contains :: "nat list \<Rightarrow> nat list \<Rightarrow> bool" where
  "contains pat xs = list_ex (\<lambda>k. take (length pat) (drop k xs) = pat) [0..<Suc (length xs)]"

definition markers :: "nat list list" where
  "markers =
     concat (map (\<lambda>q. map (\<lambda>al. codes ''charset='' @ q @ codes al)
                           [''euc-kr'', ''cp949'', ''ks_c_5601-1987''])
                 [[], [34], [39]])"

definition declares_korean :: "byte list \<Rightarrow> bool" where
  "declares_korean bytes =
     list_ex (\<lambda>m. contains m (map lower_byte bytes)) markers"

text \<open>\<open>charset=Euc-KR\<close> in ASCII.\<close>

definition sample_header :: "byte list" where
  "sample_header = [0x63, 0x68, 0x61, 0x72, 0x73, 0x65, 0x74, 0x3D, 0x45, 0x75, 0x63, 0x2D, 0x4B, 0x52]"

section \<open>Properties of the retry primitives\<close>

lemma attempts_0: "attempts a delay i 0 = [Read a]"
  by (simp add: attempts_def)

lemma attempts_Suc: "attempts a delay i (Suc n) = Read a # Sleep (delay i) # attempts a delay (Suc i) n"
proof -
  have "[i..<i + Suc n] = i # [Suc i..<Suc i + n]"
    by (simp add: upt_conv_Cons)
  then show ?thesis
    by (simp add: attempts_def)
qed

lemma fetchChunkData_loop_success:
  "int (i + n) < retries \<Longrightarrow> (\<forall>j<n. isl (rd env (reads w + j) a)) \<Longrightarrow>
   rd env (reads w + n) a = Inr d \<Longrightarrow>
   fetchChunkData_loop env a retries i w
     = (Returned d, w\<lparr>reads := reads w + n + 1, trace := trace w @ attempts a chunk_delay i n\<rparr>)"
proof (induction n arbitrary: i w)
  case 0
  then show ?case
    by (subst fetchChunkData_loop.simps) (simp add: readContract_def attempts_0)
next
  case (Suc n)
  from Suc.prems(2) obtain e where e: "rd env (reads w) a = Inl e"
    by (metis add.right_neutral isl_def zero_less_Suc)
  let ?w = "sleep (min (200 * 2 ^ i) 2000) (w\<lparr>reads := reads w + 1, trace := trace w @ [Read a]\<rparr>)"
  have step: "fetchChunkData_loop env a retries i w = fetchChunkData_loop env a retries (i + 1) ?w"
    using Suc.prems(1) e by (subst fetchChunkData_loop.simps) (simp add: readContract_def)
  have "fetchChunkData_loop env a retries (Suc i) ?w
        = (Returned d, ?w\<lparr>reads := reads ?w + n + 1, trace := trace ?w @ attempts a chunk_delay (Suc i) n\<rparr>)"
    using Suc.prems by (intro Suc.IH) (auto simp: sleep_def)
  then show ?case
    using step by (simp add: sleep_def attempts_Suc chunk_delay.simps[symmetric])
qed

lemma fetchChunkData_loop_failure:
  "int (i + n) = retries - 1 \<Longrightarrow> (\<forall>j\<le>n. rd env (reads w + j) a = Inl (e j)) \<Longrightarrow>
   fetchChunkData_loop env a retries i w
     = (Threw (e n), w\<lparr>reads := reads w + n + 1, trace := trace w @ attempts a chunk_delay i n\<rparr>)"
proof (induction n arbitrary: i w e)
  case 0
  then show ?case
    by (subst fetchChunkData_loop.simps) (simp add: readContract_def attempts_0)
next
  case (Suc n)
  have e: "rd env (reads w) a = Inl (e 0)"
    using Suc.prems(2) by (metis add.right_neutral le0)
  let ?w = "sleep (min (200 * 2 ^ i) 2000) (w\<lparr>reads := reads w + 1, trace := trace w @ [Read a]\<rparr>)"
  have step: "fetchChunkData_loop env a retries i w = fetchChunkData_loop env a retries (i + 1) ?w"
    using Suc.prems(1) e by (subst fetchChunkData_loop.simps) (simp add: readContract_def)
  have "fetchChunkData_loop env a retries (Suc i) ?w
        = (Threw ((\<lambda>j. e (Suc j)) n), ?w\<lparr>reads := reads ?w + n + 1, trace := trace ?w @ attempts a chunk_delay (Suc i) n\<rparr>)"
    using Suc.prems by (intro Suc.IH) (auto simp: sleep_def)
  then show ?case
    using step by (simp add: sleep_def attempts_Suc chunk_delay.simps[symmetric])
qed

lemma fetchChunkData_loop_reads:
  "nat (retries - int i) = m \<Longrightarrow>
   reads (snd (fetchChunkData_loop env a retries i w)) \<le> reads w + m"
proof (induction m arbitrary: i w)
  case 0
  then show ?case by (subst fetchChunkData_loop.simps) simp
next
  case (Suc m)
  then have lt: "int i < retries" by linarith
  show ?case
  proof (cases "rd env (reads w) a")
    case (Inr d)
    then show ?thesis using lt
      by (subst fetchChunkData_loop.simps) (simp add: readContract_def)
  next
    case (Inl err)
    show ?thesis
    proof (cases "int i = retries - 1")
      case True
      then show ?thesis using Inl
        by (subst fetchChunkData_loop.simps) (simp add: readContract_def)
    next
      case False
      let ?w = "sleep (min (200 * 2 ^ i) 2000) (w\<lparr>reads := reads w + 1, trace := trace w @ [Read a]\<rparr>)"
      have "reads (snd (fetchChunkData_loop env a retries (i + 1) ?w)) \<le> reads ?w + m"
        using Suc.prems by (intro Suc.IH) linarith
      then show ?thesis using lt False Inl
        by (subst fetchChunkData_loop.simps) (simp add: readContract_def sleep_def)
    qed
  qed
qed


lemma fetchWithRetry_loop_success:
  "int (i + n) < retries \<Longrightarrow> (\<forall>j<n. isl (rd env (reads w + j) a)) \<Longrightarrow>
   rd env (reads w + n) a = Inr d \<Longrightarrow> draws w = dd + i \<Longrightarrow>
   fetchWithRetry_loop env (fetchChunk env a) retries baseDelay i w
     = (Returned d, w\<lparr>reads := reads w + n + 1, draws := draws w + n,
                       trace := trace w @ attempts a (retry_delay env baseDelay dd) i n\<rparr>)"
proof (induction n arbitrary: i w)
  case 0
  then show ?case
    by (subst fetchWithRetry_loop.simps) (simp add: fetchChunk_def readContract_def attempts_0)
next
  case (Suc n)
  from Suc.prems(2) obtain e where e: "rd env (reads w) a = Inl e"
    by (metis add.right_neutral isl_def zero_less_Suc)
  let ?w1 = "w\<lparr>reads := reads w + 1, trace := trace w @ [Read a]\<rparr>"
  let ?w = "sleep (min (baseDelay * 2 ^ i + jitter env (draws ?w1)) 10000) (?w1\<lparr>draws := draws ?w1 + 1\<rparr>)"
  have step: "fetchWithRetry_loop env (fetchChunk env a) retries baseDelay i w
              = fetchWithRetry_loop env (fetchChunk env a) retries baseDelay (i + 1) ?w"
    using Suc.prems(1) e
    by (subst fetchWithRetry_loop.simps) (simp add: fetchChunk_def readContract_def)
  have "fetchWithRetry_loop env (fetchChunk env a) retries baseDelay (Suc i) ?w
        = (Returned d, ?w\<lparr>reads := reads ?w + n + 1, draws := draws ?w + n,
                            trace := trace ?w @ attempts a (retry_delay env baseDelay dd) (Suc i) n\<rparr>)"
    using Suc.prems by (intro Suc.IH) (auto simp: sleep_def)
  then show ?case
    using step Suc.prems(4)
    by (simp add: sleep_def attempts_Suc retry_delay.simps[of env baseDelay dd i] add.commute)
qed

lemma fetchWithRetry_loop_failure:
  "int (i + n) = retries - 1 \<Longrightarrow> (\<forall>j\<le>n. rd env (reads w + j) a = Inl (e j)) \<Longrightarrow>
   draws w = dd + i \<Longrightarrow>
   fetchWithRetry_loop env (fetchChunk env a) retries baseDelay i w
     = (Threw (e n), w\<lparr>reads := reads w + n + 1, draws := draws w + n,
                       trace := trace w @ attempts a (retry_delay env baseDelay dd) i n\<rparr>)"
proof (induction n arbitrary: i w e)
  case 0
  then show ?case
    by (subst fetchWithRetry_loop.simps) (simp add: fetchChunk_def readContract_def attempts_0)
next
  case (Suc n)
  have e: "rd env (reads w) a = Inl (e 0)"
    using Suc.prems(2) by (metis add.right_neutral le0)
  let ?w1 = "w\<lparr>reads := reads w + 1, trace := trace w @ [Read a]\<rparr>"
  let ?w = "sleep (min (baseDelay * 2 ^ i + jitter env (draws ?w1)) 10000) (?w1\<lparr>draws := draws ?w1 + 1\<rparr>)"
  have step: "fetchWithRetry_loop env (fetchChunk env a) retries baseDelay i w
              = fetchWithRetry_loop env (fetchChunk env a) retries baseDelay (i + 1) ?w"
    using Suc.prems(1) e
    by (subst fetchWithRetry_loop.simps) (simp add: fetchChunk_def readContract_def)
  have "fetchWithRetry_loop env (fetchChunk env a) retries baseDelay (Suc i) ?w
        = (Threw ((\<lambda>j. e (Suc j)) n), ?w\<lparr>reads := reads ?w + n + 1, draws := draws ?w + n,
                            trace := trace ?w @ attempts a (retry_delay env baseDelay dd) (Suc i) n\<rparr>)"
    using Suc.prems by (intro Suc.IH) (auto simp: sleep_def)
  then show ?case
    using step Suc.prems(3)
    by (simp add: sleep_def attempts_Suc retry_delay.simps[of env baseDelay dd i] add.commute)
qed

lemma fetchWithRetry_loop_reads:
  "nat (retries - int i) = m \<Longrightarrow>
   reads (snd (fetchWithRetry_loop env (fetchChunk env a) retries baseDelay i w)) \<le> reads w + m"
proof (induction m arbitrary: i w)
  case 0
  then show ?case by (subst fetchWithRetry_loop.simps) simp
next
  case (Suc m)
  then have lt: "int i < retries" by linarith
  show ?case
  proof (cases "rd env (reads w) a")
    case (Inr d)
    then show ?thesis using lt
      by (subst fetchWithRetry_loop.simps) (simp add: fetchChunk_def readContract_def)
  next
    case (Inl err)
    show ?thesis
    proof (cases "int i = retries - 1")
      case True
      then show ?thesis using Inl
        by (subst fetchWithRetry_loop.simps) (simp add: fetchChunk_def readContract_def)
    next
      case False
      let ?w1 = "w\<lparr>reads := reads w + 1, trace := trace w @ [Read a]\<rparr>"
      let ?w = "sleep (min (baseDelay * 2 ^ i + jitter env (draws ?w1)) 10000) (?w1\<lparr>draws := draws ?w1 + 1\<rparr>)"
      have "reads (snd (fetchWithRetry_loop env (fetchChunk env a) retries baseDelay (i + 1) ?w)) \<le> reads ?w + m"
        using Suc.prems by (intro Suc.IH) linarith
      then show ?thesis using lt False Inl
        by (subst fetchWithRetry_loop.simps) (simp add: fetchChunk_def readContract_def sleep_def)
    qed
  qed
qed

lemma waited_append: "waited (xs @ ys) = waited xs + waited ys"
  by (induction xs rule: waited.induct) auto

lemma waited_attempts: "waited (attempts a delay i n) = (\<Sum>j = i..<i + n. delay j)"
proof (induction n arbitrary: i)
  case 0
  then show ?case by (simp add: attempts_0)
next
  case (Suc n)
  have "(\<Sum>j = i..<i + Suc n. delay j) = delay i + (\<Sum>j = Suc i..<Suc i + n. delay j)"
    by (simp add: sum.atLeast_Suc_lessThan)
  then show ?case using Suc.IH[of "Suc i"] by (simp add: attempts_Suc)
qed

text \<open>
  Claim C3 does not hold of the code in one point: when the budget is used up nothing
  named FetchFailure is raised and the address is not put into the error.  Both
  primitives rethrow what the last read threw.  Against an endpoint whose reads all
  fail with the message \<open>unreachable\<close>, the fetches of two different addresses throw
  that same value.
\<close>

theorem retry_failure_counterexample:
  "fst (fetchChunkData env_down ''0xaa'' 3 w0) = Threw ''unreachable''
   \<and> fst (fetchChunkData env_down ''0xbb'' 3 w0) = Threw ''unreachable''
   \<and> fst (fetchWithRetry env_down (fetchChunk env_down ''0xaa'') 3 1000 w0) = Threw ''unreachable''
   \<and> fst (fetchWithRetry env_down (fetchChunk env_down ''0xbb'') 3 1000 w0) = Threw ''unreachable''"
proof -
  have r: "int (0 + 2) = 3 - 1" by simp
  have d: "\<forall>j\<le>2. rd env_down (reads w0 + j) a = Inl ((\<lambda>j. ''unreachable'') j)" for a
    by (simp add: env_down_def)
  have dr: "draws w0 = draws w0 + 0" by simp
  show ?thesis
    unfolding fetchChunkData_def fetchWithRetry_def
    by (simp only: fetchChunkData_loop_failure[OF r d] fetchWithRetry_loop_failure[OF r d dr] fst_conv
        simp_thms)
qed

text \<open>
  Claim C3, amended.  With a budget of at least one attempt, both retry primitives make
  at most \<open>retries\<close> reads.  If the reads fail on attempts \<open>0 .. k - 1\<close> and attempt \<open>k\<close>,
  within the budget, succeeds, the primitive returns the bytes, having issued exactly
  the reads and waits \<open>attempts a delay 0 k\<close>: no wait before attempt 0, and after failed
  attempt \<open>i\<close> the wait \<open>min (200 * 2 ^ i) 2000\<close>, respectively
  \<open>min (baseDelay * 2 ^ i + jitter) 10000\<close>; the time waited is the sum of these \<open>k\<close>
  delays.  If all \<open>retries\<close> attempts fail, the primitive rethrows, unchanged, the error
  of the last failed read, after exactly \<open>retries\<close> reads and never one more.
\<close>

theorem retry_bounded:
  fixes retries :: int
  assumes "1 \<le> retries"
  shows "(\<forall>k d. int k < retries \<and> (\<forall>i<k. isl (rd env (reads w + i) a)) \<and> rd env (reads w + k) a = Inr d
            \<longrightarrow> fetchChunkData env a retries w
                  = (Returned d, w\<lparr>reads := reads w + k + 1,
                                   trace := trace w @ attempts a chunk_delay 0 k\<rparr>)
              \<and> fetchWithRetry env (fetchChunk env a) retries baseDelay w
                  = (Returned d, w\<lparr>reads := reads w + k + 1, draws := draws w + k,
                                   trace := trace w @ attempts a (retry_delay env baseDelay (draws w)) 0 k\<rparr>)
              \<and> waited (attempts a chunk_delay 0 k) = (\<Sum>i<k. min (200 * 2 ^ i) 2000)
              \<and> waited (attempts a (retry_delay env baseDelay (draws w)) 0 k)
                  = (\<Sum>i<k. min (baseDelay * 2 ^ i + jitter env (draws w + i)) 10000))
       \<and> (\<forall>e. (\<forall>i<nat retries. rd env (reads w + i) a = Inl (e i))
            \<longrightarrow> fetchChunkData env a retries w
                  = (Threw (e (nat retries - 1)),
                     w\<lparr>reads := reads w + nat retries,
                       trace := trace w @ attempts a chunk_delay 0 (nat retries - 1)\<rparr>)
              \<and> fetchWithRetry env (fetchChunk env a) retries baseDelay w
                  = (Threw (e (nat retries - 1)),
                     w\<lparr>reads := reads w + nat retries, draws := draws w + (nat retries - 1),
                       trace := trace w @ attempts a (retry_delay env baseDelay (draws w)) 0 (nat retries - 1)\<rparr>))
       \<and> reads (snd (fetchChunkData env a retries w)) \<le> reads w + nat retries
       \<and> reads (snd (fetchWithRetry env (fetchChunk env a) retries baseDelay w)) \<le> reads w + nat retries"
proof (intro conjI allI impI)
  fix k d
  assume h: "int k < retries \<and> (\<forall>i<k. isl (rd env (reads w + i) a)) \<and> rd env (reads w + k) a = Inr d"
  show "fetchChunkData env a retries w
          = (Returned d, w\<lparr>reads := reads w + k + 1, trace := trace w @ attempts a chunk_delay 0 k\<rparr>)"
    unfolding fetchChunkData_def using h by (intro fetchChunkData_loop_success) auto
  show "fetchWithRetry env (fetchChunk env a) retries baseDelay w
          = (Returned d, w\<lparr>reads := reads w + k + 1, draws := draws w + k,
                           trace := trace w @ attempts a (retry_delay env baseDelay (draws w)) 0 k\<rparr>)"
    unfolding fetchWithRetry_def using h by (intro fetchWithRetry_loop_success) auto
  show "waited (attempts a chunk_delay 0 k) = (\<Sum>i<k. min (200 * 2 ^ i) 2000)"
    by (simp add: waited_attempts chunk_delay.simps lessThan_atLeast0)
  show "waited (attempts a (retry_delay env baseDelay (draws w)) 0 k)
          = (\<Sum>i<k. min (baseDelay * 2 ^ i + jitter env (draws w + i)) 10000)"
    by (simp add: waited_attempts retry_delay.simps lessThan_atLeast0)
next
  fix e
  assume h: "\<forall>i<nat retries. rd env (reads w + i) a = Inl (e i)"
  have r: "int (0 + (nat retries - 1)) = retries - 1" using assms by simp
  have h': "\<forall>j\<le>nat retries - 1. rd env (reads w + j) a = Inl (e j)"
    using h assms by auto
  have n: "nat retries - 1 + 1 = nat retries" using assms by simp
  show "fetchChunkData env a retries w
          = (Threw (e (nat retries - 1)),
             w\<lparr>reads := reads w + nat retries,
               trace := trace w @ attempts a chunk_delay 0 (nat retries - 1)\<rparr>)"
    unfolding fetchChunkData_def
    using fetchChunkData_loop_failure[OF r h'] n by (simp add: add.assoc)
  show "fetchWithRetry env (fetchChunk env a) retries baseDelay w
          = (Threw (e (nat retries - 1)),
             w\<lparr>reads := reads w + nat retries, draws := draws w + (nat retries - 1),
               trace := trace w @ attempts a (retry_delay env baseDelay (draws w)) 0 (nat retries - 1)\<rparr>)"
    unfolding fetchWithRetry_def
    using fetchWithRetry_loop_failure[OF r h', of "draws w" baseDelay] n by (simp add: add.assoc)
next
  show "reads (snd (fetchChunkData env a retries w)) \<le> reads w + nat retries"
    unfolding fetchChunkData_def by (rule fetchChunkData_loop_reads) simp
  show "reads (snd (fetchWithRetry env (fetchChunk env a) retries baseDelay w)) \<le> reads w + nat retries"
    unfolding fetchWithRetry_def by (rule fetchWithRetry_loop_reads) simp
qed

theorem retry_bounded_witness:
  "fetchChunkData env_flaky ''0xaa'' 3 w0
     = (Returned [1, 2, 3],
        \<lparr>reads = 3, draws = 0,
         trace = [Read ''0xaa'', Sleep 200, Read ''0xaa'', Sleep 400, Read ''0xaa'']\<rparr>)
   \<and> fetchWithRetry env_flaky (fetchChunk env_flaky ''0xaa'') 3 1000 w0
     = (Returned [1, 2, 3],
        \<lparr>reads = 3, draws = 2,
         trace = [Read ''0xaa'', Sleep 1003, Read ''0xaa'', Sleep 2010, Read ''0xaa'']\<rparr>)
   \<and> fetchChunkData env_down ''0xaa'' 3 w0
     = (Threw ''unreachable'',
        \<lparr>reads = 3, draws = 0,
         trace = [Read ''0xaa'', Sleep 200, Read ''0xaa'', Sleep 400, Read ''0xaa'']\<rparr>)"
proof -
  have budget: "1 \<le> (3::int)" by simp
  have u: "[0..<2] = [0, 1]" by (simp add: upt_conv_Cons)
  have ok: "int 2 < 3 \<and> (\<forall>i<2. isl (rd env_flaky (reads w0 + i) ''0xaa''))
            \<and> rd env_flaky (reads w0 + 2) ''0xaa'' = Inr [1, 2, 3]"
    by (simp add: env_flaky_def w0_def)
  have down: "\<forall>i<nat 3. rd env_down (reads w0 + i) ''0xaa'' = Inl ((\<lambda>i. ''unreachable'') i)"
    by (simp add: env_down_def)
  note flaky = retry_bounded[OF budget, of env_flaky w0 "''0xaa''" 1000, THEN conjunct1,
      rule_format, OF ok]
  note dead = retry_bounded[OF budget, of env_down w0 "''0xaa''" 1000, THEN conjunct2,
      THEN conjunct1, rule_format, of "\<lambda>i. ''unreachable''"]
  have "fetchChunkData env_flaky ''0xaa'' 3 w0
          = (Returned [1, 2, 3], w0\<lparr>reads := reads w0 + 2 + 1,
                                    trace := trace w0 @ attempts ''0xaa'' chunk_delay 0 2\<rparr>)"
   and "fetchWithRetry env_flaky (fetchChunk env_flaky ''0xaa'') 3 1000 w0
          = (Returned [1, 2, 3], w0\<lparr>reads := reads w0 + 2 + 1, draws := draws w0 + 2,
                 trace := trace w0 @ attempts ''0xaa'' (retry_delay env_flaky 1000 (draws w0)) 0 2\<rparr>)"
    using flaky by blast+
  moreover
  have "fetchChunkData env_down ''0xaa'' 3 w0
          = (Threw ''unreachable'', w0\<lparr>reads := reads w0 + nat 3,
                 trace := trace w0 @ attempts ''0xaa'' chunk_delay 0 (nat 3 - 1)\<rparr>)"
    using dead down by blast
  ultimately show ?thesis
    by (simp add: w0_def attempts_def u chunk_delay.simps retry_delay.simps env_flaky_def)
qed

lemma fetchChunkData_loop_defined:
  "1 \<le> retries \<Longrightarrow> fst (fetchChunkData_loop env a retries i w) = Undefined \<Longrightarrow> retries \<le> int i"
proof (induction env a retries i w rule: fetchChunkData_loop.induct)
  case (1 env a retries i w)
  show ?case
  proof (rule ccontr)
    assume "\<not> retries \<le> int i"
    then have lt: "int i < retries" by simp
    show False
    proof (cases "rd env (reads w) a")
      case (Inr d)
      then show ?thesis using lt "1.prems"(2)
        by (subst (asm) fetchChunkData_loop.simps) (simp add: readContract_def)
    next
      case (Inl err)
      show ?thesis
      proof (cases "int i = retries - 1")
        case True
        then show ?thesis using Inl lt "1.prems"(2)
          by (subst (asm) fetchChunkData_loop.simps) (simp add: readContract_def)
      next
        case False
        let ?w = "w\<lparr>reads := reads w + 1, trace := trace w @ [Read a]\<rparr>"
        have "fst (fetchChunkData_loop env a retries (i + 1) (sleep (min (200 * 2 ^ i) 2000) ?w)) = Undefined"
          using Inl lt False "1.prems"(2)
          by (subst (asm) fetchChunkData_loop.simps) (simp add: readContract_def)
        then have "retries \<le> int (i + 1)"
          using "1.IH"[OF lt _ _ False "1.prems"(1)] Inl by (simp add: readContract_def)
        then show ?thesis using lt False by simp
      qed
    qed
  qed
qed

lemma fetchChunkData_defined:
  "1 \<le> retries \<Longrightarrow> fst (fetchChunkData env a retries w) \<noteq> Undefined"
  using fetchChunkData_loop_defined[of retries env a 0 w] by (auto simp: fetchChunkData_def)

text \<open>
  Claim C9.  With a budget of zero (or less) the loop body never runs: both primitives
  complete with \<^verbatim>\<open>undefined\<close>, neither bytes nor an error, and issue no read.
\<close>

theorem retry_zero_budget:
  "retries \<le> 0 \<Longrightarrow>
     fetchChunkData env a retries w = (Undefined, w)
   \<and> fetchWithRetry env fn retries baseDelay w = (Undefined, w)"
  by (simp add: fetchChunkData_def fetchWithRetry_def
      fetchChunkData_loop.simps[of env a retries 0 w]
      fetchWithRetry_loop.simps[of env fn retries baseDelay 0 w])

theorem retry_zero_budget_witness:
  "fetchChunkData env_flaky ''0xaa'' 0 w0 = (Undefined, w0)
   \<and> fetchWithRetry env_flaky (fetchChunk env_flaky ''0xaa'') 0 1000 w0 = (Undefined, w0)"
  using retry_zero_budget[of 0 env_flaky "''0xaa''" w0 "fetchChunk env_flaky ''0xaa''" 1000]
  by simp

section \<open>Properties of the tree scan\<close>

lemma records_bound_nat: "(20 * k < (n::nat)) = (k < (n + 19) div 20)"
  by arith

lemma records_bound: "(20 * k < length (bs::byte list)) = (k < (length bs + 19) div 20)"
  by (rule records_bound_nat)


lemma childAddrs_loop_records:
  "(length bytes + 19) div 20 - k = n \<Longrightarrow>
   childAddrs_loop bytes (20 * k) acc
     = acc @ map (\<lambda>j. toHex (take 20 (drop (20 * j) bytes))) [k..<(length bytes + 19) div 20]"
proof (induction n arbitrary: k acc)
  case 0
  then have "\<not> 20 * k < length bytes" by (simp add: records_bound)
  then show ?case using 0 by (subst childAddrs_loop.simps) simp
next
  case (Suc n)
  then have lt: "k < (length bytes + 19) div 20" by simp
  then have c: "20 * k < length bytes" by (simp add: records_bound)
  have s: "slice_arr bytes (20 * k) (20 * Suc k) = take 20 (drop (20 * k) bytes)"
    by (simp add: slice_arr_def)
  have e: "20 * k + 20 = 20 * Suc k" by simp
  have step: "childAddrs_loop bytes (20 * k) acc
        = childAddrs_loop bytes (20 * Suc k) (acc @ [toHex (take 20 (drop (20 * k) bytes))])"
    using c by (subst childAddrs_loop.simps) (simp only: s e if_True)
  have ih: "childAddrs_loop bytes (20 * Suc k) (acc @ [toHex (take 20 (drop (20 * k) bytes))])
        = (acc @ [toHex (take 20 (drop (20 * k) bytes))])
            @ map (\<lambda>j. toHex (take 20 (drop (20 * j) bytes))) [Suc k..<(length bytes + 19) div 20]"
    using Suc.prems by (intro Suc.IH) simp
  have u: "[k..<(length bytes + 19) div 20] = k # [Suc k..<(length bytes + 19) div 20]"
    using lt by (rule upt_conv_Cons)
  show ?case
    by (simp only: step ih u list.map append_assoc append_Cons append_Nil)
qed

lemma childAddrs_records: "childAddrs bytes = map toHex (records bytes)"
  using childAddrs_loop_records[OF refl, of bytes 0 "[]"]
  by (simp add: childAddrs_def records_def comp_def)

lemma fetchChunkData_first:
  "rd env (reads w) a = Inr bytes \<Longrightarrow>
   fetchChunkData env a 3 w = (Returned bytes, w\<lparr>reads := reads w + 1, trace := trace w @ [Read a]\<rparr>)"
  using fetchChunkData_loop_success[of 0 0 3 env w a bytes]
  by (simp add: fetchChunkData_def attempts_0)

lemma traverse_children_append:
  "traverse_children env (xs @ ys) d (leaves, w) =
     (case traverse_children env xs d (leaves, w) of
        (Inl err, s) \<Rightarrow> (Inl err, s)
      | (Inr u, s) \<Rightarrow> traverse_children env ys d s)"
proof (induction xs arbitrary: leaves w)
  case Nil
  then show ?case by simp
next
  case (Cons x xs)
  show ?case
  proof (cases "traverse env x d (leaves, w)")
    case (fields r leaves' w')
    then show ?thesis using Cons.IH[of leaves' w']
      by (cases r) simp_all
  qed
qed


lemma traverseNode_children_append:
  "traverseNode_children env (xs @ ys) d (leaves, i, p) =
     (case traverseNode_children env xs d (leaves, i, p) of
        (Inl err, s) \<Rightarrow> (Inl err, s)
      | (Inr u, s) \<Rightarrow> traverseNode_children env ys d s)"
proof (induction xs arbitrary: leaves i p)
  case Nil
  then show ?case by simp
next
  case (Cons x xs)
  show ?case
  proof (cases "traverseNode env x d (leaves, i, p)")
    case (fields r leaves' i' p')
    then show ?thesis using Cons.IH[of leaves' i' p']
      by (cases r) simp_all
  qed
qed

lemma traverse_stored:
  assumes "serves env st"
  shows "stored st d t \<Longrightarrow>
         \<exists>w'. traverse env (ident t) d (leaves, w :: 'w world_scheme) = (Inr (), leaves @ fringe t, w')"
proof (induction d arbitrary: t leaves w)
  case 0
  then show ?case by (cases t) simp_all
next
  case (Suc d)
  show ?case
  proof (cases t)
    case (Leaf a)
    then show ?thesis using Suc.prems by simp
  next
    case (Node a ts)
    have kids: "map ident ts = childAddrs (st a)" and sub: "\<forall>t\<in>set ts. stored st d t"
      using Suc.prems Node by (simp_all add: childAddrs_records)
    have loop: "\<forall>t\<in>set us. stored st d t \<Longrightarrow>
          \<exists>w'. traverse_children env (map ident us) d (ls, v) = (Inr (), ls @ concat (map fringe us), w')"
      for us ls and v :: "'w world_scheme"
    proof (induction us arbitrary: ls v)
      case Nil
      then show ?case by simp
    next
      case (Cons u us)
      obtain v1 where v1: "traverse env (ident u) d (ls, v) = (Inr (), ls @ fringe u, v1)"
        using Suc.IH[of u ls v] Cons.prems by auto
      obtain v2 where "traverse_children env (map ident us) d (ls @ fringe u, v1)
                         = (Inr (), (ls @ fringe u) @ concat (map fringe us), v2)"
        using Cons.IH[of "ls @ fringe u" v1] Cons.prems by auto
      then show ?case using v1 by simp
    qed
    have "rd env (reads w) a = Inr (st a)" using assms by (simp add: serves_def)
    from fetchChunkData_first[OF this]
    have "traverse env a (Suc d) (leaves, w)
          = traverse_children env (map ident ts) d
              (leaves, w\<lparr>reads := reads w + 1, trace := trace w @ [Read a]\<rparr>)"
      by (simp add: kids)
    then show ?thesis using loop[OF sub] Node by simp
  qed
qed

lemma numbered_append: "numbered i (xs @ ys) = numbered i xs @ numbered (i + length xs) ys"
  by (induction xs arbitrary: i) simp_all

lemma upt_add_Suc: "[i..<i + Suc n] = i # [Suc i..<Suc i + n]"
  by (simp add: upt_conv_Cons)

lemma index_numbered: "map index (numbered i as) = [i..<i + length as]"
proof (induction as arbitrary: i)
  case Nil
  then show ?case by simp
next
  case (Cons a as)
  show ?case using Cons[of "Suc i"] upt_add_Suc[of i "length as"] by simp
qed

lemma address_numbered: "map address (numbered i as) = as"
  by (induction as arbitrary: i) simp_all

lemma traverseNode_stored:
  assumes "serves env st"
  shows "stored st d t \<Longrightarrow>
         \<exists>p'. traverseNode env (ident t) d (leaves, i, p :: 'p page_scheme)
                = (Inr (), leaves @ numbered i (fringe t), i + length (fringe t), p')"
proof (induction d arbitrary: t leaves i p)
  case 0
  then show ?case by (cases t) simp_all
next
  case (Suc d)
  show ?case
  proof (cases t)
    case (Leaf a)
    then show ?thesis using Suc.prems by simp
  next
    case (Node a ts)
    have kids: "map ident ts = childAddrs (st a)" and sub: "\<forall>t\<in>set ts. stored st d t"
      using Suc.prems Node by (simp_all add: childAddrs_records)
    have loop: "\<forall>t\<in>set us. stored st d t \<Longrightarrow>
          \<exists>q'. traverseNode_children env (map ident us) d (ls, j, q)
                 = (Inr (), ls @ numbered j (concat (map fringe us)),
                    j + length (concat (map fringe us)), q')"
      for us ls j and q :: "'p page_scheme"
    proof (induction us arbitrary: ls j q)
      case Nil
      then show ?case by simp
    next
      case (Cons u us)
      obtain q1 where q1: "traverseNode env (ident u) d (ls, j, q)
                             = (Inr (), ls @ numbered j (fringe u), j + length (fringe u), q1)"
        using Suc.IH[of u ls j q] Cons.prems by auto
      obtain q2 where "traverseNode_children env (map ident us) d
                          (ls @ numbered j (fringe u), j + length (fringe u), q1)
                         = (Inr (), (ls @ numbered j (fringe u))
                               @ numbered (j + length (fringe u)) (concat (map fringe us)),
                            j + length (fringe u) + length (concat (map fringe us)), q2)"
        using Cons.IH[of "ls @ numbered j (fringe u)" "j + length (fringe u)" q1] Cons.prems by auto
      then show ?case using q1 by (simp add: numbered_append add.assoc)
    qed
    have "rd env (reads p) a = Inr (st a)" using assms by (simp add: serves_def)
    from fetchChunkData_first[OF this]
    obtain p1 where "traverseNode env a (Suc d) (leaves, i, p)
          = (case traverseNode_children env (map ident ts) d (leaves, i, p1) of
                  (Inl err, leaves', currentIndex', p'') \<Rightarrow>
                    (Inl err, leaves', currentIndex', log (FailedToTraverse (take 10 a)) p'')
                | (Inr u, s) \<Rightarrow> (Inr u, s))"
      by (simp add: kids)
    then show ?thesis using loop[OF sub, of leaves i p1] Node by auto
  qed
qed

lemma traverseNode_numbers:
  "traverseNode env a d (leaves, i, p :: 'p page_scheme) = (r, leaves', i', p') \<Longrightarrow>
   \<exists>as. leaves' = leaves @ numbered i as \<and> i' = i + length as"
proof (induction d arbitrary: a leaves i p r leaves' i' p')
  case 0
  then have "leaves' = leaves @ numbered i [a] \<and> i' = i + length [a]" by auto
  then show ?case by blast
next
  case (Suc d)
  have loop: "traverseNode_children env cs d (ls, j, q) = (r2, ls2, j2, q2) \<Longrightarrow>
              \<exists>as. ls2 = ls @ numbered j as \<and> j2 = j + length as"
    for cs ls j r2 ls2 j2 q2 and q :: "'p page_scheme"
  proof (induction cs arbitrary: ls j q)
    case Nil
    then have "ls2 = ls @ numbered j [] \<and> j2 = j + length ([]::addr list)" by simp
    then show ?case by blast
  next
    case (Cons c cs)
    obtain r1 ls1 j1 q1 where c: "traverseNode env c d (ls, j, q) = (r1, ls1, j1, q1)"
      by (cases "traverseNode env c d (ls, j, q)") auto
    from Suc.IH[OF c] obtain as1 where as1: "ls1 = ls @ numbered j as1" "j1 = j + length as1"
      by blast
    show ?case
    proof (cases r1)
      case (Inl err)
      then have "ls2 = ls1 \<and> j2 = j1" using Cons.prems c by simp
      then show ?thesis using as1 by blast
    next
      case (Inr u)
      then have "traverseNode_children env cs d (ls1, j1, q1) = (r2, ls2, j2, q2)"
        using Cons.prems c by simp
      from Cons.IH[OF this] obtain as2 where "ls2 = ls1 @ numbered j1 as2" "j2 = j1 + length as2"
        by blast
      then have "ls2 = ls @ numbered j (as1 @ as2) \<and> j2 = j + length (as1 @ as2)"
        using as1 by (simp add: numbered_append)
      then show ?thesis by blast
    qed
  qed
  obtain c p1 where f: "fetchChunkData env a 3 p = (c, p1)"
    by (cases "fetchChunkData env a 3 p") auto
  show ?case
  proof (cases "awaited c")
    case (Inl err)
    then have "leaves' = leaves @ numbered i [] \<and> i' = i + length ([]::addr list)"
      using Suc.prems f by simp
    then show ?thesis by blast
  next
    case (Inr bytes)
    obtain r2 ls2 j2 q2 where k: "traverseNode_children env (childAddrs bytes) d (leaves, i, p1) = (r2, ls2, j2, q2)"
      by (cases "traverseNode_children env (childAddrs bytes) d (leaves, i, p1)") auto
    have "leaves' = ls2 \<and> i' = j2"
      using Suc.prems f Inr k by (cases r2) auto
    then show ?thesis using loop[OF k] by simp
  qed
qed

lemma collectLeafAddresses_contiguous:
  "collectLeafAddresses env root d (p :: 'p page_scheme) = (Inr ls, p') \<Longrightarrow> map index ls = [0..<length ls]"
proof -
  assume a: "collectLeafAddresses env root d p = (Inr ls, p')"
  obtain r leaves' i' q where t: "traverseNode env root d ([], 0, p) = (r, leaves', i', q)"
    by (cases "traverseNode env root d ([], 0, p)") auto
  from traverseNode_numbers[OF t] obtain as where as: "leaves' = numbered 0 as" by auto
  have "ls = leaves'" using a t by (cases r) (auto simp: collectLeafAddresses_def)
  moreover have "length (numbered 0 as) = length as"
    using arg_cong[OF address_numbered[of 0 as], of length] by simp
  ultimately show ?thesis using as index_numbered[of 0 as] by simp
qed

lemma serves_demo: "serves env_demo st_demo"
  by (simp add: serves_def env_demo_def)

lemma stored_demo: "stored st_demo 2 tree_demo"
  by code_simp

text \<open>
  Claim C1.  When the endpoint serves a store that holds a tree \<open>t\<close> with its leaves
  at depth \<open>D\<close>, whatever the shape of \<open>t\<close>, both scans return exactly the leaves of
  \<open>t\<close> in depth-first, left-to-right order: \<^verbatim>\<open>_collectLeaves\<close> returns the list of their
  addresses (the later index of a leaf is its position), and \<^verbatim>\<open>collectLeafAddresses\<close>
  returns them with the indices \<open>0, 1, ..., L - 1\<close>, where \<open>L\<close> is the number of
  leaves.
\<close>

theorem scan_indices_contiguous:
  assumes "serves env st" and "stored st D t"
  shows "fst (collectLeaves env (ident t) D w) = Inr (fringe t)
       \<and> fst (collectLeafAddresses env (ident t) D p) = Inr (numbered 0 (fringe t))
       \<and> length (numbered 0 (fringe t)) = length (fringe t)
       \<and> map index (numbered 0 (fringe t)) = [0..<length (fringe t)]
       \<and> map address (numbered 0 (fringe t)) = fringe t"
proof (intro conjI)
  obtain w' where "traverse env (ident t) D ([], w) = (Inr (), [] @ fringe t, w')"
    using traverse_stored[OF assms, of "[]" w] by blast
  then show "fst (collectLeaves env (ident t) D w) = Inr (fringe t)"
    by (simp add: collectLeaves_def)
  obtain p' where "traverseNode env (ident t) D ([], 0, p)
                     = (Inr (), [] @ numbered 0 (fringe t), 0 + length (fringe t), p')"
    using traverseNode_stored[OF assms, of "[]" 0 p] by blast
  then show "fst (collectLeafAddresses env (ident t) D p) = Inr (numbered 0 (fringe t))"
    by (simp add: collectLeafAddresses_def)
  show "map index (numbered 0 (fringe t)) = [0..<length (fringe t)]"
    using index_numbered[of 0 "fringe t"] by simp
  show "map address (numbered 0 (fringe t)) = fringe t"
    by (rule address_numbered)
  then show "length (numbered 0 (fringe t)) = length (fringe t)"
    by (metis length_map)
qed

theorem scan_indices_contiguous_witness:
  "fst (collectLeaves env_demo ''0xroot'' 2 w0) = Inr [toHex idL1, toHex idL2, toHex idL3]
   \<and> fst (collectLeafAddresses env_demo ''0xroot'' 2 page0)
       = Inr [\<lparr>index = 0, address = toHex idL1\<rparr>, \<lparr>index = 1, address = toHex idL2\<rparr>,
              \<lparr>index = 2, address = toHex idL3\<rparr>]"
  using scan_indices_contiguous[OF serves_demo stored_demo, of w0 page0]
  by (simp add: tree_demo_def)

text \<open>
  Claim C6 does not hold of the code.  With a root at depth 1 whose payload has 25
  bytes, both scans finish normally after one read and return two leaves: the first
  20 bytes, and the remaining 5 bytes as a second, short address.
\<close>

theorem malformed_node_counterexample:
  "length payload25 = 25
   \<and> collectLeaves env25 ''0xroot'' 1 w0
       = (Inr [''0x0102030405060708090a0b0c0d0e0f1011121314'', ''0x1516171819''],
          \<lparr>reads = 1, draws = 0, trace = [Read ''0xroot'', Found 1, Found 2]\<rparr>)
   \<and> fst (collectLeafAddresses env25 ''0xroot'' 1 page0)
       = Inr [\<lparr>index = 0, address = ''0x0102030405060708090a0b0c0d0e0f1011121314''\<rparr>,
              \<lparr>index = 1, address = ''0x1516171819''\<rparr>]"
  by code_simp

lemma length_records: "length (records bs) = (length bs + 19) div 20"
  by (simp add: records_def)

lemma last_record_size:
  assumes "(n::nat) mod 20 \<noteq> 0"
  shows "n - 20 * ((n + 19) div 20 - 1) = n mod 20"
proof -
  define q where "q = n div 20"
  define r where "r = n mod 20"
  have n: "n = 20 * q + r" by (simp add: q_def r_def)
  have r: "0 < r" "r < 20" using assms by (simp_all add: r_def)
  have "(20 * q + r + 19) div 20 = Suc q"
  proof (rule div_nat_eqI)
    show "20 * Suc q \<le> 20 * q + r + 19" using r by simp
    show "20 * q + r + 19 < 20 * Suc (Suc q)" using r by simp
  qed
  then have "n - 20 * ((n + 19) div 20 - 1) = r" by (simp add: n)
  then show ?thesis by (simp add: r_def)
qed

lemma last_records:
  assumes "length bs mod 20 \<noteq> 0"
  shows "length (last (records bs)) = length bs mod 20"
proof -
  let ?n = "(length bs + 19) div 20"
  have pos: "0 < ?n" using assms by (cases "length bs") auto
  then have "[0..<?n] = [0..<?n - 1] @ [?n - 1]"
    by (metis Suc_diff_1 upt_Suc_append zero_le)
  then have "last (records bs) = take 20 (drop (20 * (?n - 1)) bs)"
    by (simp add: records_def)
  moreover have "length bs - 20 * (?n - 1) = length bs mod 20"
    using assms by (rule last_record_size)
  moreover have "length bs mod 20 < 20" by simp
  ultimately show ?thesis by simp
qed

text \<open>
  Claim C6, amended.  The scan does not inspect the length of an internal node's
  payload.  A payload of any length is cut into \<open>\<lceil>length / 20\<rceil>\<close> records, the last one
  holding the remaining \<open>length mod 20\<close> bytes when the length is not a multiple of
  20; each record is hex-encoded as a child address and the traversal continues with
  these children in order.  At depth 1 they are returned as the leaves, and no error
  is raised.
\<close>

theorem malformed_node_split:
  assumes "rd env (reads w) a = Inr bytes" and "rd env (reads p) a = Inr bytes"
  shows "traverse env a (Suc d) (leaves, w)
           = traverse_children env (map toHex (records bytes)) d
               (leaves, w\<lparr>reads := reads w + 1, trace := trace w @ [Read a]\<rparr>)
       \<and> fst (collectLeaves env a 1 w) = Inr (map toHex (records bytes))
       \<and> fst (collectLeafAddresses env a 1 p) = Inr (numbered 0 (map toHex (records bytes)))
       \<and> length (records bytes) = (length bytes + 19) div 20
       \<and> (length bytes mod 20 \<noteq> 0 \<longrightarrow> length (last (records bytes)) = length bytes mod 20)"
proof (intro conjI impI)
  show "traverse env a (Suc d) (leaves, w)
           = traverse_children env (map toHex (records bytes)) d
               (leaves, w\<lparr>reads := reads w + 1, trace := trace w @ [Read a]\<rparr>)"
    by (simp add: fetchChunkData_first[OF assms(1)] childAddrs_records)
  have kidsA: "\<exists>w'. traverse_children env cs 0 (ls, v) = (Inr (), ls @ cs, w')"
    for cs ls and v :: "'a world_scheme"
  proof (induction cs arbitrary: ls v)
    case Nil
    then show ?case by simp
  next
    case (Cons c cs)
    show ?case
      using Cons[of "ls @ [c]" "v\<lparr>trace := trace v @ [Found (length ls + 1)]\<rparr>"] by simp
  qed
  obtain w' where "traverse_children env (map toHex (records bytes)) 0
                     ([], w\<lparr>reads := reads w + 1, trace := trace w @ [Read a]\<rparr>)
                   = (Inr (), [] @ map toHex (records bytes), w')"
    using kidsA by blast
  then show "fst (collectLeaves env a 1 w) = Inr (map toHex (records bytes))"
    by (simp add: collectLeaves_def fetchChunkData_first[OF assms(1)] childAddrs_records)
  have kidsB: "\<exists>q'. traverseNode_children env cs 0 (ls, i, q)
                      = (Inr (), ls @ numbered i cs, i + length cs, q')"
    for cs ls i and q :: "'b page_scheme"
  proof (induction cs arbitrary: ls i q)
    case Nil
    then show ?case by simp
  next
    case (Cons c cs)
    show ?case
      using Cons[of "ls @ [\<lparr>index = i, address = c\<rparr>]" "Suc i" "updateChunkScanned (length ls) q"]
      by simp
  qed
  obtain q' where "traverseNode_children env (map toHex (records bytes)) 0
                     ([], 0, p\<lparr>reads := reads p + 1, trace := trace p @ [Read a]\<rparr>)
                   = (Inr (), [] @ numbered 0 (map toHex (records bytes)),
                      0 + length (map toHex (records bytes)), q')"
    using kidsB by blast
  then show "fst (collectLeafAddresses env a 1 p) = Inr (numbered 0 (map toHex (records bytes)))"
    by (simp add: collectLeafAddresses_def fetchChunkData_first[OF assms(2)] childAddrs_records)
  show "length (records bytes) = (length bytes + 19) div 20"
    by (rule length_records)
next
  assume "length bytes mod 20 \<noteq> 0"
  then show "length (last (records bytes)) = length bytes mod 20"
    by (rule last_records)
qed

theorem malformed_node_split_witness:
  "fst (collectLeaves env25 ''0xroot'' 1 w0) = Inr (map toHex (records payload25))
   \<and> fst (collectLeafAddresses env25 ''0xroot'' 1 page0)
       = Inr (numbered 0 (map toHex (records payload25)))
   \<and> length (records payload25) = 2
   \<and> length (last (records payload25)) = 5"
proof -
  have a: "rd env25 (reads w0) ''0xroot'' = Inr payload25" by (simp add: env25_def)
  have b: "rd env25 (reads page0) ''0xroot'' = Inr payload25" by (simp add: env25_def)
  have c: "length payload25 mod 20 \<noteq> 0" by (simp add: payload25_def)
  from malformed_node_split[OF a b] c show ?thesis by (simp add: payload25_def)
qed

subsection \<open>A failed node read ends the scan\<close>

lemma visits_abort:
  "visits env x y \<Longrightarrow> y = (a, Suc d, leaves, v) \<Longrightarrow> fetchChunkData env a 3 v = (Threw e, v') \<Longrightarrow>
   traverse env (fst x) (fst (snd x)) (snd (snd x)) = (Inl e, leaves, v')"
proof (induction rule: visits.induct)
  case (visits_self x)
  then show ?case by simp
next
  case (visits_child a0 w bytes w1 before c after d0 leaves0 leaves2 w2 y)
  have "traverse env c d0 (leaves2, w2) = (Inl e, leaves, v')"
    using visits_child.IH visits_child.prems by simp
  then have "traverse_children env (before @ c # after) d0 (leaves0, w1) = (Inl e, leaves, v')"
    using visits_child.hyps(3) by (simp add: traverse_children_append)
  then show ?case
    using visits_child.hyps(1,2) by simp
qed

lemma visitsNode_abort:
  "visitsNode env x y \<Longrightarrow> y = (a, Suc d, leaves, i, q) \<Longrightarrow>
   fetchChunkData env a 3 q = (Threw e, q') \<Longrightarrow>
   \<exists>ls j p'. traverseNode env (fst x) (fst (snd x)) (snd (snd x)) = (Inl e, ls, j, p')
             \<and> reads p' = reads q'"
proof (induction rule: visitsNode.induct)
  case (visitsNode_self x)
  then show ?case by (simp add: log_def)
next
  case (visitsNode_child a0 p bytes p1 before c after d0 leaves0 i0 leaves2 i2 p2 y)
  obtain ls j p' where t: "traverseNode env c d0 (leaves2, i2, p2) = (Inl e, ls, j, p')"
    and r: "reads p' = reads q'"
    using visitsNode_child.IH visitsNode_child.prems by auto
  have "traverseNode_children env (before @ c # after) d0 (leaves0, i0, p1) = (Inl e, ls, j, p')"
    using visitsNode_child.hyps(3) t by (simp add: traverseNode_children_append)
  then show ?case
    using visitsNode_child.hyps(1,2) r by (simp add: log_def)
qed


text \<open>
  Claim C7.  If, anywhere in the traversal, the fetch of an internal node throws (its
  budget of 3 reads is used up), the scan ends there: \<^verbatim>\<open>_collectLeaves\<close> rejects with
  that error and returns no leaves, and so does \<^verbatim>\<open>getData\<close>, with the world as the
  failed fetch left it, so no chunk is ever loaded; likewise
  \<^verbatim>\<open>collectLeafAddresses\<close> and \<^verbatim>\<open>fetchTreeSequential\<close> reject with that error and
  issue no further read.
\<close>

theorem scan_aborts_on_node_failure:
  "(visits env (root, depth, [], w) (a, Suc d, leaves, v)
      \<and> fetchChunkData env a 3 v = (Threw e, v')
    \<longrightarrow> collectLeaves env root depth w = (Inl e, v')
        \<and> getData env root depth w = (Inl e, v'))
   \<and> (visitsNode env (root, depth, [], 0, log Phase1 (log StartingLoad (p\<lparr>cells := replicate n Pending\<rparr>)))
                    (b, Suc d', lvs, i, q)
      \<and> fetchChunkData env b 3 q = (Threw e', q')
    \<longrightarrow> fst (collectLeafAddresses env root depth
                (log Phase1 (log StartingLoad (p\<lparr>cells := replicate n Pending\<rparr>)))) = Inl e'
        \<and> fst (fetchTreeSequential env n root depth p) = Inl e'
        \<and> reads (snd (fetchTreeSequential env n root depth p)) = reads q')"
proof (intro conjI impI)
  assume h: "visits env (root, depth, [], w) (a, Suc d, leaves, v)
             \<and> fetchChunkData env a 3 v = (Threw e, v')"
  have "traverse env root depth ([], w) = (Inl e, leaves, v')"
    using visits_abort[of env "(root, depth, [], w)" "(a, Suc d, leaves, v)" a d leaves v e v'] h
    by simp
  then show c: "collectLeaves env root depth w = (Inl e, v')"
    by (simp add: collectLeaves_def)
  show "getData env root depth w = (Inl e, v')"
    by (simp add: getData_def c)
next
  let ?p0 = "log Phase1 (log StartingLoad (p\<lparr>cells := replicate n Pending\<rparr>))"
  assume h: "visitsNode env (root, depth, [], 0, ?p0) (b, Suc d', lvs, i, q)
             \<and> fetchChunkData env b 3 q = (Threw e', q')"
  obtain ls j p' where t: "traverseNode env root depth ([], 0, ?p0) = (Inl e', ls, j, p')"
    and r: "reads p' = reads q'"
    using visitsNode_abort[of env "(root, depth, [], 0, ?p0)" "(b, Suc d', lvs, i, q)" b d' lvs i q e' q'] h
    by auto
  have c: "collectLeafAddresses env root depth ?p0 = (Inl e', p')"
    using t by (simp add: collectLeafAddresses_def)
  then show "fst (collectLeafAddresses env root depth ?p0) = Inl e'" by simp
  show "fst (fetchTreeSequential env n root depth p) = Inl e'"
    by (simp add: fetchTreeSequential_def c)
  show "reads (snd (fetchTreeSequential env n root depth p)) = reads q'"
    by (simp add: fetchTreeSequential_def c r)
qed

theorem scan_aborts_on_node_failure_witness:
  "getData env25 ''0xroot'' 2 w0
     = (Inl ''unreachable'',
        \<lparr>reads = 4, draws = 0,
         trace = [Read ''0xroot'',
                  Read ''0x0102030405060708090a0b0c0d0e0f1011121314'', Sleep 200,
                  Read ''0x0102030405060708090a0b0c0d0e0f1011121314'', Sleep 400,
                  Read ''0x0102030405060708090a0b0c0d0e0f1011121314'']\<rparr>)
   \<and> fst (fetchTreeSequential env25 3 ''0xroot'' 2 page0) = Inl ''unreachable''
   \<and> reads (snd (fetchTreeSequential env25 3 ''0xroot'' 2 page0)) = 4"
proof -
  let ?c = "''0x0102030405060708090a0b0c0d0e0f1011121314''"
  let ?w1 = "\<lparr>reads = 1, draws = 0, trace = [Read ''0xroot'']\<rparr>"
  let ?w2 = "\<lparr>reads = 4, draws = 0,
              trace = [Read ''0xroot'', Read ?c, Sleep 200, Read ?c, Sleep 400, Read ?c]\<rparr>"
  have kids: "childAddrs payload25 = [] @ ?c # [''0x1516171819'']" by code_simp
  have f1: "fetchChunkData env25 ''0xroot'' 3 w0 = (Returned payload25, ?w1)" by code_simp
  have f2: "fetchChunkData env25 ?c 3 ?w1 = (Threw ''unreachable'', ?w2)" by code_simp
  have "visits env25 (?c, 1, [], ?w1) (?c, Suc 0, [], ?w1)"
    using visits_self[of env25 "(?c, Suc 0, [], ?w1)"] by simp
  then have v: "visits env25 (''0xroot'', 2, [], w0) (?c, Suc 0, [], ?w1)"
    using visits_child[of env25 "''0xroot''" w0 payload25 ?w1 "[]" ?c "[''0x1516171819'']" 1 "[]" "[]" ?w1
            "(?c, Suc 0, [], ?w1)"] f1 kids
    by (simp add: numeral_2_eq_2)
  let ?p0 = "log Phase1 (log StartingLoad (page0\<lparr>cells := replicate 3 Pending\<rparr>))"
  let ?p1 = "?p0\<lparr>reads := 1, trace := trace ?p0 @ [Read ''0xroot'']\<rparr>"
  let ?p2 = "?p1\<lparr>reads := 4, trace := trace ?p1 @ [Read ?c, Sleep 200, Read ?c, Sleep 400, Read ?c]\<rparr>"
  have g1: "fetchChunkData env25 ''0xroot'' 3 ?p0 = (Returned payload25, ?p1)" by code_simp
  have g2: "fetchChunkData env25 ?c 3 ?p1 = (Threw ''unreachable'', ?p2)" by code_simp
  have "visitsNode env25 (?c, 1, [], 0, ?p1) (?c, Suc 0, [], 0, ?p1)"
    using visitsNode_self[of env25 "(?c, Suc 0, [], 0, ?p1)"] by simp
  then have vn: "visitsNode env25 (''0xroot'', 2, [], 0, ?p0) (?c, Suc 0, [], 0, ?p1)"
    using visitsNode_child[of env25 "''0xroot''" ?p0 payload25 ?p1 "[]" ?c "[''0x1516171819'']" 1 "[]" 0 "[]" 0 ?p1
            "(?c, Suc 0, [], 0, ?p1)"] g1 kids
    by (simp add: numeral_2_eq_2)
  from scan_aborts_on_node_failure[where env = env25 and root = "''0xroot''" and depth = 2
         and w = w0 and a = ?c and d = 0 and leaves = "[]" and v = ?w1 and e = "''unreachable''"
         and v' = ?w2 and p = page0 and n = 3 and b = ?c and d' = 0 and lvs = "[]" and i = 0
         and q = ?p1 and e' = "''unreachable''" and q' = ?p2] v f2 vn g2
  show ?thesis by simp
qed

section \<open>Properties of the assembler\<close>

lemma totalBytes_sum: "totalBytes cs = sum_list (map (\<lambda>c. length (data c)) cs)"
proof -
  have "foldl (\<lambda>sum c. sum + length (data c)) a cs = a + sum_list (map (\<lambda>c. length (data c)) cs)" for a
    by (induction cs arbitrary: a) auto
  then show ?thesis by (simp add: totalBytes_def)
qed

lemma fill_concat:
  "length pre = offset \<Longrightarrow> totalBytes cs \<le> length rest \<Longrightarrow>
   fill cs offset (pre @ rest) = Some (pre @ concat (map data cs) @ drop (totalBytes cs) rest)"
proof (induction cs arbitrary: pre offset rest)
  case Nil
  then show ?case by (simp add: totalBytes_sum)
next
  case (Cons c cs)
  let ?d = "data c"
  have len: "length ?d + totalBytes cs \<le> length rest"
    using Cons.prems(2) by (simp add: totalBytes_sum)
  have ts: "typed_set (pre @ rest) ?d offset = Some ((pre @ ?d) @ drop (length ?d) rest)"
    using Cons.prems(1) len by (simp add: typed_set_def)
  have "fill cs (offset + length ?d) ((pre @ ?d) @ drop (length ?d) rest)
        = Some ((pre @ ?d) @ concat (map data cs) @ drop (totalBytes cs) (drop (length ?d) rest))"
    using Cons.prems(1) len by (intro Cons.IH) auto
  then show ?case using ts by (simp add: totalBytes_sum add.commute)
qed

lemma assembleChunks_concat:
  "assembleChunks cs = Some (concat (map data (sort_key index cs)))"
  using fill_concat[of "[]" 0 "sort_key index cs" "replicate (totalBytes (sort_key index cs)) 0"]
  by (simp add: assembleChunks_def Let_def)

lemma chunk_map_at:
  assumes "distinct (map index cs)" and "c \<in> set cs"
  shows "chunk_map cs (index c) = Some (data c)"
proof -
  have "distinct (map fst (map (\<lambda>c. (index c, data c)) cs))"
    using assms(1) by (simp add: comp_def)
  moreover have "(index c, data c) \<in> set (map (\<lambda>c. (index c, data c)) cs)"
    using assms(2) by auto
  ultimately show ?thesis
    unfolding chunk_map_def by (rule map_of_is_SomeI)
qed

lemma dom_chunk_map: "dom (chunk_map cs) = index ` set cs"
  by (simp add: chunk_map_def dom_map_of_conv_image_fst image_image)

lemma sorted_indices:
  assumes "distinct (map index cs)"
  shows "sorted_list_of_set (index ` set cs) = map index (sort_key index cs)"
proof -
  have "sorted (map index (sort_key index cs))" by simp
  moreover have "distinct (map index (sort_key index cs))"
    using assms by (simp add: distinct_map)
  moreover have "set (map index (sort_key index cs)) = index ` set cs" by simp
  ultimately show ?thesis
    by (metis sorted_list_of_set.idem_if_sorted_distinct)
qed

lemma assemble_spec_sorted:
  assumes "distinct (map index cs)"
  shows "assemble_spec (chunk_map cs) = concat (map data (sort_key index cs))"
proof -
  have h: "map (\<lambda>i. the (chunk_map cs i)) (map index (sort_key index cs))
        = map data (sort_key index cs)"
    unfolding map_map by (rule map_cong) (simp_all add: chunk_map_at[OF assms])
  show ?thesis
    by (simp only: assemble_spec_def dom_chunk_map sorted_indices[OF assms] h)
qed

lemma chunk_map_permute:
  assumes "distinct (map index cs)" and "mset cs' = mset cs"
  shows "distinct (map index cs')" and "chunk_map cs' = chunk_map cs"
proof -
  have "mset (map index cs') = mset (map index cs)"
    using assms(2) by (metis mset_map)
  then show d: "distinct (map index cs')"
    using assms(1) by (metis mset_eq_imp_distinct_iff)
  have "set cs' = set cs" using assms(2) by (rule mset_eq_setD)
  then have "set (map (\<lambda>c. (index c, data c)) cs') = set (map (\<lambda>c. (index c, data c)) cs)"
    by simp
  moreover have "distinct (map fst (map (\<lambda>c. (index c, data c)) cs'))"
    using d by (simp add: comp_def)
  moreover have "distinct (map fst (map (\<lambda>c. (index c, data c)) cs))"
    using assms(1) by (simp add: comp_def)
  ultimately show "chunk_map cs' = chunk_map cs"
    unfolding chunk_map_def by (metis map_of_inject_set)
qed

text \<open>
  Claim C2.  For chunks with pairwise distinct indices, \<^verbatim>\<open>_assembleChunks\<close> returns
  the payloads concatenated in ascending index order, with nothing added between
  them; the length of the result is the sum of the payload lengths; and any
  reordering of the chunk array gives the same buffer.
\<close>

theorem assemble_ordered_concat:
  assumes "distinct (map index cs)"
  shows "assembleChunks cs = Some (assemble_spec (chunk_map cs))
       \<and> length (assemble_spec (chunk_map cs)) = sum_list (map (\<lambda>c. length (data c)) cs)
       \<and> (\<forall>cs'. mset cs' = mset cs \<longrightarrow> assembleChunks cs' = assembleChunks cs)"
proof (intro conjI allI impI)
  show a: "assembleChunks cs = Some (assemble_spec (chunk_map cs))"
    by (simp add: assembleChunks_concat assemble_spec_sorted[OF assms])
  have "length (concat (map data (sort_key index cs)))
        = sum_list (map (\<lambda>c. length (data c)) (sort_key index cs))"
    by (simp add: length_concat comp_def)
  also have "\<dots> = sum_mset (image_mset (\<lambda>c. length (data c)) (mset (sort_key index cs)))"
    by (metis mset_map sum_mset_sum_list)
  also have "\<dots> = sum_list (map (\<lambda>c. length (data c)) cs)"
    by (metis mset_sort mset_map sum_mset_sum_list)
  finally show "length (assemble_spec (chunk_map cs)) = sum_list (map (\<lambda>c. length (data c)) cs)"
    by (simp add: assemble_spec_sorted[OF assms])
next
  fix cs' :: "chunk list"
  assume p: "mset cs' = mset cs"
  have "assembleChunks cs' = Some (assemble_spec (chunk_map cs'))"
    by (simp add: assembleChunks_concat assemble_spec_sorted[OF chunk_map_permute(1)[OF assms p]])
  then show "assembleChunks cs' = assembleChunks cs"
    by (simp add: chunk_map_permute(2)[OF assms p] assembleChunks_concat
        assemble_spec_sorted[OF assms])
qed

text \<open>
  The chunks \<open>{2:"EF", 0:"AB", 1:"CD"}\<close>, pushed in that order, assemble to
  \<open>"ABCDEF"\<close> (bytes \<open>0x41 .. 0x46\<close>), six bytes long, as does the array in index
  order.
\<close>

theorem assemble_ordered_concat_witness:
  "assembleChunks [\<lparr>index = 2, data = [0x45, 0x46]\<rparr>, \<lparr>index = 0, data = [0x41, 0x42]\<rparr>,
                   \<lparr>index = 1, data = [0x43, 0x44]\<rparr>]
     = Some [0x41, 0x42, 0x43, 0x44, 0x45, 0x46]
   \<and> assembleChunks [\<lparr>index = 0, data = [0x41, 0x42]\<rparr>, \<lparr>index = 1, data = [0x43, 0x44]\<rparr>,
                     \<lparr>index = 2, data = [0x45, 0x46]\<rparr>]
     = assembleChunks [\<lparr>index = 2, data = [0x45, 0x46]\<rparr>, \<lparr>index = 0, data = [0x41, 0x42]\<rparr>,
                       \<lparr>index = 1, data = [0x43, 0x44]\<rparr>]"
proof -
  let ?cs = "[\<lparr>index = 2, data = [0x45, 0x46]\<rparr>, \<lparr>index = 0, data = [0x41, 0x42 :: byte]\<rparr>,
              \<lparr>index = 1, data = [0x43, 0x44]\<rparr>]"
  let ?cs' = "[\<lparr>index = 0, data = [0x41, 0x42 :: byte]\<rparr>, \<lparr>index = 1, data = [0x43, 0x44]\<rparr>,
               \<lparr>index = 2, data = [0x45, 0x46]\<rparr>]"
  have d: "distinct (map index ?cs)" by simp
  have m: "mset ?cs' = mset ?cs" by (simp add: add.commute)
  have s: "assemble_spec (chunk_map ?cs) = [0x41, 0x42, 0x43, 0x44, 0x45, 0x46]"
    unfolding assemble_spec_sorted[OF d] by simp
  from assemble_ordered_concat[OF d] s m show ?thesis by simp
qed

section \<open>Properties of phased loading\<close>






lemma set_cell_keeps [simp]:
  "reads (set_cell i c p) = reads p" "trace (set_cell i c p) = trace p"
  "length (cells (set_cell i c p)) = length (cells p)"
  by (simp_all add: set_cell_def)









lemma last_snoc_trace: "last (es @ [e]) = e"
  by simp



lemma net_simps [simp]:
  "net [] = []"
  "net (Read a # es) = Read a # net es"
  "net (Sleep ms # es) = Sleep ms # net es"
  "net (Log m # es) = net es"
  "net (Progress i n # es) = net es"
  "net (Found k # es) = net es"
  by (simp_all add: net_def)


lemma callbacks_simps [simp]:
  "callbacks [] = []"
  "callbacks (Read a # es) = callbacks es"
  "callbacks (Sleep ms # es) = callbacks es"
  "callbacks (Log m # es) = Log m # callbacks es"
  "callbacks (Progress i n # es) = Progress i n # callbacks es"
  "callbacks (Found k # es) = Found k # callbacks es"
  by (simp_all add: callbacks_def)











subsection \<open>The loaders are the specified schedule on every endpoint\<close>





















section \<open>Properties of the encoding detection\<close>

lemma index_windows_1252_high: "k < 32 \<Longrightarrow> 128 \<le> index_windows_1252 ! k"
proof -
  have "list_all (\<lambda>c. 128 \<le> c) index_windows_1252"
    by (simp add: index_windows_1252_def)
  moreover have "length index_windows_1252 = 32"
    by (simp add: index_windows_1252_def)
  ultimately show "k < 32 \<Longrightarrow> 128 \<le> index_windows_1252 ! k"
    by (simp add: list_all_length)
qed

lemma windows_1252_low: "b < 128 \<Longrightarrow> windows_1252 b = b"
  by (simp add: windows_1252_def)

lemma windows_1252_high: "128 \<le> b \<Longrightarrow> 128 \<le> windows_1252 b"
  using index_windows_1252_high[of "b - 128"] by (auto simp: windows_1252_def)

lemma canonicalize_lower:
  assumes "y < 128" and "\<not> (65 \<le> y \<and> y \<le> 90)"
  shows "(canonicalize x = canonicalize y) = (to_lower x = y)"
  using assms unfolding canonicalize_def to_lower_def by (auto split: if_splits)

lemma canonicalize_decoded:
  assumes "y < 128" and "\<not> (65 \<le> y \<and> y \<le> 90)"
  shows "(canonicalize (windows_1252 b) = canonicalize y) = (to_lower b = y)"
proof (cases "b < 128")
  case True
  then show ?thesis using canonicalize_lower[OF assms] by (simp add: windows_1252_low)
next
  case False
  then have h: "128 \<le> windows_1252 b" "128 \<le> b" using windows_1252_high[of b] by simp_all
  have "canonicalize (windows_1252 b) = windows_1252 b" using h by (simp add: canonicalize_def)
  moreover have "canonicalize y < 128" using assms by (auto simp: canonicalize_def)
  moreover have "to_lower b = b" using h by (simp add: to_lower_def)
  ultimately show ?thesis using h assms by auto
qed


lemma literal_decoded:
  assumes "\<forall>c\<in>set p. c < 128 \<and> \<not> (65 \<le> c \<and> c \<le> 90)"
  shows "literal p (ascii_decode bs)
         = (if take (length p) (map lower_byte bs) = p
            then Some (ascii_decode (drop (length p) bs)) else None)"
  using assms
proof (induction p arbitrary: bs)
  case Nil
  then show ?case by simp
next
  case (Cons c p)
  show ?case
  proof (cases bs)
    case Nil
    then show ?thesis by (simp add: ascii_decode_def)
  next
    case (Cons b bs')
    have c: "(canonicalize (windows_1252 (unat b)) = canonicalize c) = (lower_byte b = c)"
      unfolding lower_byte_def using Cons.prems by (intro canonicalize_decoded) simp_all
    have ih: "literal p (ascii_decode bs')
              = (if take (length p) (map lower_byte bs') = p
                 then Some (ascii_decode (drop (length p) bs')) else None)"
      using Cons.prems by (intro Cons.IH) simp
    have "literal (c # p) (ascii_decode (b # bs'))
          = (if lower_byte b = c then literal p (ascii_decode bs') else None)"
      using c by (simp add: ascii_decode_def)
    then show ?thesis using ih Cons by simp
  qed
qed

lemma plain_codes:
  "\<forall>c\<in>set (codes ''charset=''). c < 128 \<and> \<not> (65 \<le> c \<and> c \<le> 90)"
  "\<forall>c\<in>set (codes ''euc-kr''). c < 128 \<and> \<not> (65 \<le> c \<and> c \<le> 90)"
  "\<forall>c\<in>set (codes ''cp949''). c < 128 \<and> \<not> (65 \<le> c \<and> c \<le> 90)"
  "\<forall>c\<in>set (codes ''ks_c_5601-1987''). c < 128 \<and> \<not> (65 \<le> c \<and> c \<le> 90)"
  by (simp_all add: codes_def)

lemma take_append_iff:
  "(take (length (p @ q)) xs = p @ q)
   = (take (length p) xs = p \<and> take (length q) (drop (length p) xs) = q)"
proof (induction p arbitrary: xs)
  case Nil
  then show ?case by simp
next
  case (Cons c p)
  then show ?case by (cases xs) auto
qed

lemma alternatives_decoded:
  "alternatives (ascii_decode bs)
   = (\<exists>al\<in>{codes ''euc-kr'', codes ''cp949'', codes ''ks_c_5601-1987''}.
        take (length al) (map lower_byte bs) = al)"
  by (simp add: alternatives_def literal_decoded[OF plain_codes(2)]
      literal_decoded[OF plain_codes(3)] literal_decoded[OF plain_codes(4)])

lemma quote_decoded:
  "q = 34 \<or> q = 39 \<Longrightarrow> (windows_1252 (unat b) = q) = (lower_byte b = q)"
proof (cases "unat b < 128")
  case True
  assume "q = 34 \<or> q = 39"
  then show ?thesis using True
    by (auto simp: windows_1252_low lower_byte_def to_lower_def)
next
  case False
  assume q: "q = 34 \<or> q = 39"
  have "128 \<le> windows_1252 (unat b)" using False windows_1252_high[of "unat b"] by simp
  moreover have "lower_byte b = unat b" using False by (simp add: lower_byte_def to_lower_def)
  ultimately show ?thesis using q False by auto
qed

lemma markers_set:
  "(\<exists>m\<in>set markers. P m)
   = (\<exists>q\<in>{[], [34], [39]}.
        \<exists>al\<in>{codes ''euc-kr'', codes ''cp949'', codes ''ks_c_5601-1987''}.
          P (codes ''charset='' @ q @ al))"
  by (simp add: markers_def)

lemma length_charset: "length (codes ''charset='') = 8"
  by (simp add: codes_def)

lemma match_here_decoded:
  "match_here (ascii_decode bs)
   = (\<exists>m\<in>set markers. take (length m) (map lower_byte bs) = m)"
proof -
  let ?L = "map lower_byte bs"
  let ?cs = "codes ''charset=''"
  let ?A = "{codes ''euc-kr'', codes ''cp949'', codes ''ks_c_5601-1987''}"
  let ?alt = "\<lambda>ds. \<exists>al\<in>?A. take (length al) (map lower_byte ds) = al"
  have rhs: "(\<exists>m\<in>set markers. take (length m) ?L = m)
        = (take 8 ?L = ?cs
           \<and> (\<exists>q\<in>{[], [34], [39]}. take (length q) (drop 8 ?L) = q
                 \<and> (\<exists>al\<in>?A. take (length al) (drop (length q) (drop 8 ?L)) = al)))"
    unfolding markers_set take_append_iff length_charset by blast
  show ?thesis
  proof (cases "take 8 ?L = ?cs")
    case False
    then have "literal ?cs (ascii_decode bs) = None"
      by (simp add: literal_decoded[OF plain_codes(1)] length_charset)
    then show ?thesis using False rhs by (simp add: match_here_def)
  next
    case True
    then have lit: "literal ?cs (ascii_decode bs) = Some (ascii_decode (drop 8 bs))"
      by (simp add: literal_decoded[OF plain_codes(1)] length_charset)
    have d: "drop 8 ?L = map lower_byte (drop 8 bs)" by (simp add: drop_map)
    show ?thesis
    proof (cases "drop 8 bs")
      case Nil
      then have "match_here (ascii_decode bs) = ?alt []"
        using lit alternatives_decoded[of "[]"] by (simp add: match_here_def ascii_decode_def)
      moreover have "(\<exists>m\<in>set markers. take (length m) ?L = m) = ?alt []"
        unfolding rhs d Nil using True by auto
      ultimately show ?thesis by simp
    next
      case (Cons b ds)
      let ?x = "windows_1252 (unat b)"
      have quote: "(?x = 34 \<or> ?x = 39) = (lower_byte b = 34 \<or> lower_byte b = 39)"
        using quote_decoded[of 34 b] quote_decoded[of 39 b] by simp
      have m: "match_here (ascii_decode bs)
               = (if lower_byte b = 34 \<or> lower_byte b = 39
                  then ?alt ds \<or> ?alt (b # ds) else ?alt (b # ds))"
        using lit Cons quote alternatives_decoded[of ds] alternatives_decoded[of "b # ds"]
        by (simp add: match_here_def ascii_decode_def)
      have "(\<exists>m\<in>set markers. take (length m) ?L = m)
            = (?alt (b # ds) \<or> (lower_byte b = 34 \<and> ?alt ds) \<or> (lower_byte b = 39 \<and> ?alt ds))"
        unfolding rhs d Cons using True by simp
      then show ?thesis unfolding m by auto
    qed
  qed
qed

lemma ex_le_Suc: "(\<exists>k\<le>Suc n. P k) = (P 0 \<or> (\<exists>k\<le>n. P (Suc k)))"
proof
  assume "\<exists>k\<le>Suc n. P k"
  then obtain k where k: "k \<le> Suc n" "P k" by blast
  show "P 0 \<or> (\<exists>k\<le>n. P (Suc k))"
  proof (cases k)
    case 0
    then show ?thesis using k by simp
  next
    case (Suc j)
    then show ?thesis using k by auto
  qed
next
  assume "P 0 \<or> (\<exists>k\<le>n. P (Suc k))"
  then show "\<exists>k\<le>Suc n. P k" by auto
qed

lemma charsetMatch_decoded:
  "charsetMatch (ascii_decode bs) = (\<exists>k\<le>length bs. match_here (ascii_decode (drop k bs)))"
proof (induction bs)
  case Nil
  then show ?case by (simp add: ascii_decode_def)
next
  case (Cons b bs)
  have "charsetMatch (ascii_decode (b # bs))
        = (match_here (ascii_decode (b # bs)) \<or> charsetMatch (ascii_decode bs))"
    by (simp add: ascii_decode_def)
  also have "\<dots> = (match_here (ascii_decode (drop 0 (b # bs)))
                   \<or> (\<exists>k\<le>length bs. match_here (ascii_decode (drop (Suc k) (b # bs)))))"
    using Cons by simp
  also have "\<dots> = (\<exists>k\<le>Suc (length bs). match_here (ascii_decode (drop k (b # bs))))"
    by (rule ex_le_Suc[symmetric])
  finally show ?case by simp
qed

lemma contains_iff:
  "contains m xs = (\<exists>k\<le>length xs. take (length m) (drop k xs) = m)"
proof -
  have "set [0..<Suc (length xs)] = {k. k \<le> length xs}" by auto
  then show ?thesis
    unfolding contains_def list_ex_iff by blast
qed

lemma charsetMatch_declares: "charsetMatch (ascii_decode bs) = declares_korean bs"
proof -
  have "charsetMatch (ascii_decode bs)
        = (\<exists>k\<le>length bs. \<exists>m\<in>set markers. take (length m) (map lower_byte (drop k bs)) = m)"
    by (simp add: charsetMatch_decoded match_here_decoded)
  also have "\<dots> = (\<exists>m\<in>set markers. \<exists>k\<le>length bs. take (length m) (drop k (map lower_byte bs)) = m)"
    by (auto simp: drop_map)
  also have "\<dots> = declares_korean bs"
    by (simp add: declares_korean_def list_ex_iff contains_iff)
  finally show ?thesis .
qed

lemma utf8_loop_ascii:
  "\<forall>b\<in>set bs. b < 128 \<Longrightarrow> utf8_loop 0 0 0 0x80 0xBF bs = bs"
  by (induction bs) simp_all

lemma euckr_loop_ascii:
  "\<forall>b\<in>set bs. b < 128 \<Longrightarrow> euckr_loop idx 0 bs = bs"
  by (induction bs) simp_all

lemma ascii_codes:
  assumes "\<forall>b\<in>set bytes. b < (0x80 :: byte)"
  shows "\<forall>c\<in>set (map unat bytes). c < 128"
proof -
  have "unat b < 128" if "b < (0x80 :: byte)" for b
    using that by (simp add: word_less_nat_alt)
  then show ?thesis using assms by auto
qed

lemma utf8_decode_ascii:
  assumes "\<forall>b\<in>set bytes. b < (0x80 :: byte)"
  shows "utf8_decode bytes = map unat bytes"
proof (cases bytes)
  case Nil
  then show ?thesis by (simp add: utf8_decode_def)
next
  case (Cons b bs)
  have "unat b < 128" using ascii_codes[OF assms] Cons by simp
  then show ?thesis
    using utf8_loop_ascii[OF ascii_codes[OF assms]] Cons by (simp add: utf8_decode_def)
qed

text \<open>
  Claim C8.  \<^verbatim>\<open>_decodeContent\<close> decodes the whole buffer with the EUC-KR decoder
  exactly when its first 2000 bytes contain, in any letter case, \<open>charset=\<close>, an
  optional quote and one of the aliases \<open>euc-kr\<close>, \<open>cp949\<close>, \<open>ks_c_5601-1987\<close>, and with
  the UTF-8 decoder otherwise.  For a buffer of ASCII bytes both decoders, and so
  \<^verbatim>\<open>_decodeContent\<close> on either path, return the bytes as code points.
\<close>

theorem decode_detects_charset:
  "decodeContent idx bytes
     = (if declares_korean (take 2000 bytes) then euckr_decode idx bytes else utf8_decode bytes)
   \<and> ((\<forall>b\<in>set bytes. b < 0x80) \<longrightarrow>
        euckr_decode idx bytes = map unat bytes
        \<and> utf8_decode bytes = map unat bytes
        \<and> decodeContent idx bytes = map unat bytes)"
proof (intro conjI impI)
  show d: "decodeContent idx bytes
     = (if declares_korean (take 2000 bytes) then euckr_decode idx bytes else utf8_decode bytes)"
    by (simp add: decodeContent_def slice_arr_def charsetMatch_declares)
  assume a: "\<forall>b\<in>set bytes. b < 0x80"
  show e: "euckr_decode idx bytes = map unat bytes"
    using euckr_loop_ascii[OF ascii_codes[OF a]] by (simp add: euckr_decode_def)
  show u: "utf8_decode bytes = map unat bytes"
    by (rule utf8_decode_ascii[OF a])
  show "decodeContent idx bytes = map unat bytes"
    by (simp add: d e u)
qed

theorem decode_detects_charset_witness:
  "declares_korean (take 2000 sample_header)
   \<and> decodeContent (\<lambda>p. None) sample_header
       = [99, 104, 97, 114, 115, 101, 116, 61, 69, 117, 99, 45, 75, 82]
   \<and> utf8_decode sample_header = decodeContent (\<lambda>p. None) sample_header"
proof -
  have k: "declares_korean (take 2000 sample_header)" by code_simp
  have a: "\<forall>b\<in>set sample_header. b < 0x80" by (simp add: sample_header_def)
  have m: "map unat sample_header = [99, 104, 97, 114, 115, 101, 116, 61, 69, 117, 99, 45, 75, 82]"
    by (simp add: sample_header_def)
  from decode_detects_charset[of "\<lambda>p. None" sample_header] a k m
  show ?thesis by simp
qed

end
